theory Spec2Isabelle
  imports Complex_Main "HOL-Library.Char_ord" "HOL-Library.List_Lexorder" "HOL-Library.Multiset"
begin

section \<open>Variable elimination on discrete Bayesian networks\<close>

text \<open>
  A shallow embedding of \<^verbatim>\<open>src/Python/variable_elim.py\<close> (class
  \<^verbatim>\<open>VariableElimination\<close>). The program manipulates pandas tables, so the first
  part models the few table operations it calls; the second part is the class itself,
  method by method.

  Conventions of the model:
  \<^item> a Python exception is a value \<open>Inl e\<close> of the result type \<open>error + 'a\<close>;
  \<^item> a Python \<^verbatim>\<open>dict\<close> is an association list in insertion order;
  \<^item> a float is an exact rational or one of the special values infinity and NaN, so that
    division by zero is visible; rounding, overflow and the sign of zero are not modelled;
  \<^item> \<^verbatim>\<open>self.network\<close> is passed in, and returned where a method assigns to it;
  \<^item> \<^verbatim>\<open>print\<close> is left out.
\<close>

subsection \<open>Exceptions\<close>

datatype error = KeyError | ValueError | AttributeError | TypeError

definition ebind :: "error + 'a \<Rightarrow> ('a \<Rightarrow> error + 'b) \<Rightarrow> error + 'b" where
  "ebind m f = (case m of Inl e \<Rightarrow> Inl e | Inr x \<Rightarrow> f x)"

subsection \<open>Floats\<close>

datatype fl = Fin rat | Inf bool | NaN

text \<open>\<open>Inf True\<close> is positive infinity, \<open>Inf False\<close> negative infinity.\<close>

fun fl_mul :: "fl \<Rightarrow> fl \<Rightarrow> fl" where
  "fl_mul (Fin a) (Fin b) = Fin (a * b)"
| "fl_mul (Inf s) (Inf t) = Inf (s = t)"
| "fl_mul (Inf s) (Fin b) = (if b = 0 then NaN else Inf (s = (0 < b)))"
| "fl_mul (Fin a) (Inf t) = (if a = 0 then NaN else Inf ((0 < a) = t))"
| "fl_mul _ _ = NaN"

fun fl_add :: "fl \<Rightarrow> fl \<Rightarrow> fl" where
  "fl_add (Fin a) (Fin b) = Fin (a + b)"
| "fl_add (Inf s) (Inf t) = (if s = t then Inf s else NaN)"
| "fl_add (Inf s) (Fin b) = Inf s"
| "fl_add (Fin a) (Inf t) = Inf t"
| "fl_add _ _ = NaN"

fun fl_div :: "fl \<Rightarrow> fl \<Rightarrow> fl" where
  "fl_div (Fin a) (Fin b) =
     (if b = 0 then (if a = 0 then NaN else Inf (0 < a)) else Fin (a / b))"
| "fl_div (Fin a) (Inf t) = Fin 0"
| "fl_div (Inf s) (Fin b) = Inf (s = (0 \<le> b))"
| "fl_div _ _ = NaN"

text \<open>\<^verbatim>\<open>Series.sum()\<close> and the group-wise sum skip NaN entries; the empty sum is 0.\<close>

definition series_sum :: "fl list \<Rightarrow> fl" where
  "series_sum xs = foldr fl_add (filter (\<lambda>x. x \<noteq> NaN) xs) (Fin 0)"

subsection \<open>Tables (pandas DataFrame)\<close>

datatype cell = Str string | Flt fl

text \<open>
  A table is its column labels, in order, and its rows, each a list of cells aligned
  with the labels. The row index of pandas is not modelled: the program never reads it.
\<close>

record dataframe =
  columns :: "string list"
  rows :: "cell list list"

definition get_cell :: "string list \<Rightarrow> cell list \<Rightarrow> string \<Rightarrow> cell option" where
  "get_cell cols row c = map_of (zip cols row) c"

text \<open>\<^verbatim>\<open>df[df[var] == value]\<close>: the rows whose cell under \<open>var\<close> is the string \<open>value\<close>.\<close>

definition filter_eq :: "dataframe \<Rightarrow> string \<Rightarrow> string \<Rightarrow> dataframe" where
  "filter_eq df var value =
     df\<lparr>rows := filter (\<lambda>r. get_cell (columns df) r var = Some (Str value)) (rows df)\<rparr>"

text \<open>
  \<^verbatim>\<open>df.drop(columns=names)\<close>. pandas raises KeyError for a label that is not a column;
  every call of the program is guarded by a membership test or follows a read of the same
  columns, so the model drops what is there.
\<close>

definition drop_cells :: "string list \<Rightarrow> string list \<Rightarrow> cell list \<Rightarrow> cell list" where
  "drop_cells names cols row = map snd (filter (\<lambda>(c, x). c \<notin> set names) (zip cols row))"

definition drop_columns :: "dataframe \<Rightarrow> string list \<Rightarrow> dataframe" where
  "drop_columns df names =
     \<lparr>columns = filter (\<lambda>c. c \<notin> set names) (columns df),
      rows = map (drop_cells names (columns df)) (rows df)\<rparr>"

text \<open>
  \<^verbatim>\<open>df[name] = values\<close>: overwrite the column where the label exists, append it as the
  last column otherwise. \<open>vs\<close> holds one cell per row.
\<close>

definition assign_cell :: "string list \<Rightarrow> string \<Rightarrow> cell list \<Rightarrow> cell \<Rightarrow> cell list" where
  "assign_cell cols name row v =
     (if name \<in> set cols then map (\<lambda>(c, x). if c = name then v else x) (zip cols row)
      else row @ [v])"

definition assign_column :: "dataframe \<Rightarrow> string \<Rightarrow> cell list \<Rightarrow> dataframe" where
  "assign_column df name vs =
     \<lparr>columns = (if name \<in> set (columns df) then columns df else columns df @ [name]),
      rows = map (\<lambda>(r, v). assign_cell (columns df) name r v) (zip (rows df) vs)\<rparr>"

text \<open>
  Reading a column for arithmetic: KeyError when the label is missing. The \<^verbatim>\<open>prob\<close>
  columns of the program hold floats; a cell that is not a float makes the arithmetic
  fail, which the model reports as TypeError.
\<close>

fun the_floats :: "cell option list \<Rightarrow> error + fl list" where
  "the_floats [] = Inr []"
| "the_floats (Some (Flt x) # cs) = ebind (the_floats cs) (\<lambda>xs. Inr (x # xs))"
| "the_floats (_ # cs) = Inl TypeError"

definition float_column :: "dataframe \<Rightarrow> string \<Rightarrow> error + fl list" where
  "float_column df c =
     (if c \<notin> set (columns df) then Inl KeyError
      else the_floats (map (\<lambda>r. get_cell (columns df) r c) (rows df)))"

text \<open>
  \<^verbatim>\<open>pd.merge(df1, df2, on=keys)\<close>: the inner join on equality of all key columns. The
  result has the columns of \<open>df1\<close>, then the columns of \<open>df2\<close> that are not keys; a label
  that both tables have outside the keys gets the suffix \<^verbatim>\<open>_x\<close> on the left and
  \<^verbatim>\<open>_y\<close> on the right. Rows come in the order of the left table. KeyError when a key is
  not a column of both.
\<close>

definition key_of :: "string list \<Rightarrow> string list \<Rightarrow> cell list \<Rightarrow> cell option list" where
  "key_of keys cols row = map (get_cell cols row) keys"

definition merge_columns :: "string list \<Rightarrow> string list \<Rightarrow> string list \<Rightarrow> string list" where
  "merge_columns keys cols1 cols2 =
     map (\<lambda>c. if c \<notin> set keys \<and> c \<in> set cols2 then c @ ''_x'' else c) cols1 @
     map (\<lambda>c. if c \<in> set cols1 then c @ ''_y'' else c) (filter (\<lambda>c. c \<notin> set keys) cols2)"

definition merge_rows ::
  "string list \<Rightarrow> dataframe \<Rightarrow> dataframe \<Rightarrow> cell list list" where
  "merge_rows keys df1 df2 =
     concat (map (\<lambda>l.
       map (\<lambda>r. l @ drop_cells keys (columns df2) r)
         (filter (\<lambda>r. key_of keys (columns df2) r = key_of keys (columns df1) l) (rows df2)))
       (rows df1))"

definition merge :: "dataframe \<Rightarrow> dataframe \<Rightarrow> string list \<Rightarrow> error + dataframe" where
  "merge df1 df2 keys =
     (if \<not> (set keys \<subseteq> set (columns df1) \<and> set keys \<subseteq> set (columns df2)) then Inl KeyError
      else Inr \<lparr>columns = merge_columns keys (columns df1) (columns df2),
                rows = merge_rows keys df1 df2\<rparr>)"

text \<open>
  \<^verbatim>\<open>df.groupby(keys)[target].sum().reset_index()\<close>. With no keys pandas raises
  ValueError (\<^verbatim>\<open>No group keys passed!\<close>) on a table that has rows, and on a table without
  rows yields the empty table over \<^verbatim>\<open>index\<close> and \<open>target\<close>. Otherwise there is one
  row per distinct key, in sorted key order, holding the key and the sum of \<open>target\<close> over
  the rows with that key. The key columns of the program hold value names, which are
  strings; a key cell that is not a string is reported as TypeError.
\<close>

fun the_strings :: "cell option list \<Rightarrow> error + string list" where
  "the_strings [] = Inr []"
| "the_strings (Some (Str s) # cs) = ebind (the_strings cs) (\<lambda>ss. Inr (s # ss))"
| "the_strings (_ # cs) = Inl TypeError"

fun group_keys :: "string list \<Rightarrow> string list \<Rightarrow> cell list list \<Rightarrow> error + string list list" where
  "group_keys keys cols [] = Inr []"
| "group_keys keys cols (r # rs) =
     ebind (the_strings (key_of keys cols r)) (\<lambda>k.
     ebind (group_keys keys cols rs) (\<lambda>ks. Inr (k # ks)))"

definition group_sum :: "string list list \<Rightarrow> fl list \<Rightarrow> string list \<Rightarrow> fl" where
  "group_sum ks ps k = series_sum (map snd (filter (\<lambda>(k', p). k' = k) (zip ks ps)))"

definition groupby_sum :: "dataframe \<Rightarrow> string list \<Rightarrow> string \<Rightarrow> error + dataframe" where
  "groupby_sum df keys target =
     (if keys = [] then
        (if rows df \<noteq> [] then Inl ValueError
         else ebind (float_column df target) (\<lambda>ps.
              Inr \<lparr>columns = [''index'', target], rows = []\<rparr>))
      else if \<not> set keys \<subseteq> set (columns df) then Inl KeyError
      else
        ebind (float_column df target) (\<lambda>ps.
        ebind (group_keys keys (columns df) (rows df)) (\<lambda>ks.
          Inr \<lparr>columns = keys @ [target],
               rows = map (\<lambda>k. map Str k @ [Flt (group_sum ks ps k)]) (sort (remdups ks))\<rparr>)))"

subsection \<open>Dictionaries\<close>

type_synonym ('k, 'v) dict = "('k \<times> 'v) list"

definition dict_get :: "('k, 'v) dict \<Rightarrow> 'k \<Rightarrow> error + 'v" where
  "dict_get d k = (case map_of d k of None \<Rightarrow> Inl KeyError | Some v \<Rightarrow> Inr v)"

fun dict_set :: "('k, 'v) dict \<Rightarrow> 'k \<Rightarrow> 'v \<Rightarrow> ('k, 'v) dict" where
  "dict_set [] k v = [(k, v)]"
| "dict_set ((k', v') # d) k v = (if k' = k then (k, v) # d else (k', v') # dict_set d k v)"

definition dict_del :: "('k, 'v) dict \<Rightarrow> 'k \<Rightarrow> ('k, 'v) dict" where
  "dict_del d k = filter (\<lambda>(k', v). k' \<noteq> k) d"

subsection \<open>The network\<close>

text \<open>
  The parsed network that \<^verbatim>\<open>read_bayesnet.BayesNet\<close> builds (that module is not part of
  the sources): the fields the engine reads. \<open>probabilities\<close> maps each node to its
  conditional probability table, whose columns are the node, its parents and
  \<^verbatim>\<open>prob\<close>.
\<close>

record network =
  nodes :: "string list"
  node_values :: "(string, string list) dict"
  parents :: "(string, string list) dict"
  probabilities :: "(string, dataframe) dict"

subsection \<open>Evidence incorporation: \<^verbatim>\<open>simplification\<close>\<close>

text \<open>
  The body of the inner loop: a table that has the evidence variable among its columns
  is filtered to the observed value and loses the column; any other table is left alone.
\<close>

definition reduce_evidence :: "string \<Rightarrow> string \<Rightarrow> dataframe \<Rightarrow> dataframe" where
  "reduce_evidence var value df =
     (if var \<in> set (columns df) then drop_columns (filter_eq df var value) [var] else df)"

text \<open>
  \<^verbatim>\<open>for key in self.network.probabilities\<close>: the keys are those of the dictionary at the
  start of the loop; the body reads and reassigns the entry of each key in turn.
\<close>

fun simplification_keys ::
  "string \<Rightarrow> string \<Rightarrow> string list \<Rightarrow> (string, dataframe) dict \<Rightarrow> (string, dataframe) dict" where
  "simplification_keys var value [] probs = probs"
| "simplification_keys var value (key # keys) probs =
     (case map_of probs key of
        None \<Rightarrow> simplification_keys var value keys probs
      | Some df \<Rightarrow>
          simplification_keys var value keys
            (if var \<in> set (columns df) then dict_set probs key (reduce_evidence var value df)
             else probs))"

fun simplification_items ::
  "(string, string) dict \<Rightarrow> (string, dataframe) dict \<Rightarrow> (string, dataframe) dict" where
  "simplification_items [] probs = probs"
| "simplification_items ((var, value) # observed) probs =
     simplification_items observed (simplification_keys var value (map fst probs) probs)"

definition simplification :: "network \<Rightarrow> (string, string) dict \<Rightarrow> network" where
  "simplification net observed =
     net\<lparr>probabilities := simplification_items observed (probabilities net)\<rparr>"

subsection \<open>Factor product: \<^verbatim>\<open>multiplication\<close>\<close>

text \<open>
  A factor argument is a table, or the name of a table of the network
  (\<^verbatim>\<open>factor if isinstance(factor, pd.DataFrame) else self.network.probabilities[factor]\<close>).
\<close>

datatype factor_arg = Frame dataframe | Name string

definition resolve :: "network \<Rightarrow> factor_arg \<Rightarrow> error + dataframe" where
  "resolve net f = (case f of Frame df \<Rightarrow> Inr df | Name k \<Rightarrow> dict_get (probabilities net) k)"

text \<open>
  \<^verbatim>\<open>list(set(df1.columns) & set(df2.columns))\<close> without \<^verbatim>\<open>prob\<close>. The order of the
  list is that of a Python set; the join does not depend on it, and the model takes the
  order of the first table.
\<close>

definition common_vars :: "dataframe \<Rightarrow> dataframe \<Rightarrow> string list" where
  "common_vars df1 df2 =
     filter (\<lambda>c. c \<in> set (columns df2) \<and> c \<noteq> ''prob'') (remdups (columns df1))"

definition with_dummy :: "dataframe \<Rightarrow> dataframe" where
  "with_dummy df = assign_column df ''dummy'' (replicate (length (rows df)) (Flt (Fin 1)))"

definition multiplication :: "network \<Rightarrow> factor_arg \<Rightarrow> factor_arg \<Rightarrow> error + dataframe" where
  "multiplication net factor1 factor2 =
     ebind (resolve net factor1) (\<lambda>df1.
     ebind (resolve net factor2) (\<lambda>df2.
     ebind (if common_vars df1 df2 = []
            then merge (with_dummy df1) (with_dummy df2) [''dummy'']
            else merge df1 df2 (common_vars df1 df2)) (\<lambda>merged_df.
     ebind (float_column merged_df ''prob_x'') (\<lambda>px.
     ebind (float_column merged_df ''prob_y'') (\<lambda>py.
       let merged_df = assign_column merged_df ''prob''
                         (map (\<lambda>(x, y). Flt (fl_mul x y)) (zip px py));
           merged_df = drop_columns merged_df [''prob_x'', ''prob_y''];
           merged_df = (if ''dummy'' \<in> set (columns merged_df)
                        then drop_columns merged_df [''dummy''] else merged_df)
       in Inr merged_df)))))"

subsection \<open>Marginalisation: \<^verbatim>\<open>sum_out\<close>\<close>

definition sum_out :: "network \<Rightarrow> string \<Rightarrow> factor_arg \<Rightarrow> error + dataframe" where
  "sum_out net variable factor =
     ebind (resolve net factor) (\<lambda>factor.
       let remaining_vars = filter (\<lambda>col. col \<notin> set [variable, ''prob'']) (columns factor)
       in groupby_sum factor remaining_vars ''prob'')"

subsection \<open>Ordering: \<^verbatim>\<open>elimination_order\<close>\<close>

text \<open>
  The heuristic argument is a string or a list of variable names. Randomness is a
  parameter: \<open>rng i\<close> is the draw of the \<open>i\<close>-th iteration, and \<^verbatim>\<open>random.choice\<close> of a
  list takes the element at that draw modulo the length.

  \<^verbatim>\<open>remaining_variables\<close> is a Python set, whose iteration order is not specified.
  The model keeps it as a list without duplicates, in the order of the network's nodes;
  \<^verbatim>\<open>min\<close> and \<^verbatim>\<open>max\<close> return the first extremal element of that order.
\<close>

datatype heuristic = Named string | Ordering "string list"

fun first_min :: "('a \<times> nat) list \<Rightarrow> 'a \<times> nat \<Rightarrow> 'a" where
  "first_min [] (x, s) = x"
| "first_min ((y, t) # ys) (x, s) = (if t < s then first_min ys (y, t) else first_min ys (x, s))"

fun first_max :: "('a \<times> nat) list \<Rightarrow> 'a \<times> nat \<Rightarrow> 'a" where
  "first_max [] (x, s) = x"
| "first_max ((y, t) # ys) (x, s) = (if s < t then first_max ys (y, t) else first_max ys (x, s))"

fun scores :: "('a \<Rightarrow> error + nat) \<Rightarrow> 'a list \<Rightarrow> error + ('a \<times> nat) list" where
  "scores key [] = Inr []"
| "scores key (x # xs) =
     ebind (key x) (\<lambda>s. ebind (scores key xs) (\<lambda>ss. Inr ((x, s) # ss)))"

definition py_min :: "'a list \<Rightarrow> ('a \<Rightarrow> error + nat) \<Rightarrow> error + 'a" where
  "py_min xs key =
     ebind (scores key xs) (\<lambda>ss. case ss of [] \<Rightarrow> Inl ValueError | p # ps \<Rightarrow> Inr (first_min ps p))"

definition py_max :: "'a list \<Rightarrow> ('a \<Rightarrow> error + nat) \<Rightarrow> error + 'a" where
  "py_max xs key =
     ebind (scores key xs) (\<lambda>ss. case ss of [] \<Rightarrow> Inl ValueError | p # ps \<Rightarrow> Inr (first_max ps p))"

definition random_choice :: "nat \<Rightarrow> 'a list \<Rightarrow> 'a" where
  "random_choice draw xs = xs ! (draw mod length xs)"

definition cpt_rows :: "network \<Rightarrow> string \<Rightarrow> error + nat" where
  "cpt_rows net var = ebind (dict_get (probabilities net) var) (\<lambda>df. Inr (length (rows df)))"

definition incoming_arcs :: "network \<Rightarrow> string \<Rightarrow> error + nat" where
  "incoming_arcs net var = ebind (dict_get (parents net) var) (\<lambda>ps. Inr (length ps))"

definition outgoing_arcs :: "network \<Rightarrow> string \<Rightarrow> error + nat" where
  "outgoing_arcs net var =
     Inr (length (filter (\<lambda>child.
            case map_of (parents net) child of None \<Rightarrow> False | Some ps \<Rightarrow> var \<in> set ps)
          (nodes net)))"

definition factor_count :: "network \<Rightarrow> string \<Rightarrow> error + nat" where
  "factor_count net var =
     Inr (length (filter (\<lambda>table. var \<in> set (columns table)) (map snd (probabilities net))))"

definition choose_var :: "network \<Rightarrow> heuristic \<Rightarrow> nat \<Rightarrow> string list \<Rightarrow> error + string" where
  "choose_var net h draw remaining =
     (if h = Named ''random'' then Inr (random_choice draw remaining)
      else if h = Named ''min-size'' then py_min remaining (cpt_rows net)
      else if h = Named ''least-incoming-arcs'' then py_min remaining (incoming_arcs net)
      else if h = Named ''outgoing-arcs-first'' then py_max remaining (outgoing_arcs net)
      else if h = Named ''min-weight'' then py_min remaining (cpt_rows net)
      else if h = Named ''fewest-factors'' then py_min remaining (factor_count net)
      else Inr (random_choice draw remaining))"

text \<open>
  The \<^verbatim>\<open>while remaining_variables\<close> loop. \<^verbatim>\<open>set.remove\<close> raises KeyError for an element
  that is not in the set.
\<close>

function elimination_loop ::
  "network \<Rightarrow> heuristic \<Rightarrow> (nat \<Rightarrow> nat) \<Rightarrow> string list \<Rightarrow> string list \<Rightarrow> error + string list" where
  "elimination_loop net h rng remaining order =
     (if remaining = [] then Inr order
      else case choose_var net h (rng (length order)) remaining of
             Inl e \<Rightarrow> Inl e
           | Inr var \<Rightarrow>
               if var \<in> set remaining
               then elimination_loop net h rng (removeAll var remaining) (order @ [var])
               else Inl KeyError)"
  by pat_completeness auto
termination
  by (relation "measure (\<lambda>(net, h, rng, remaining, order). length remaining)")
     (auto simp: length_removeAll_less)

declare elimination_loop.simps [simp del]

definition elimination_order ::
  "network \<Rightarrow> heuristic \<Rightarrow> (nat \<Rightarrow> nat) \<Rightarrow> (string, string) dict \<Rightarrow> error + string list" where
  "elimination_order net h rng observed =
     elimination_loop net h rng
       (filter (\<lambda>v. v \<notin> set (map fst observed)) (remdups (nodes net))) []"

subsection \<open>The entry point: \<^verbatim>\<open>run\<close>\<close>

text \<open>Step 1, the body of the loop over the elimination order, and the loop.\<close>

fun multiply_all ::
  "network \<Rightarrow> (string, dataframe) dict \<Rightarrow> dataframe \<Rightarrow> string list \<Rightarrow> error + dataframe" where
  "multiply_all net factors combined [] = Inr combined"
| "multiply_all net factors combined (f # fs) =
     ebind (dict_get factors f) (\<lambda>df.
     ebind (multiplication net (Frame combined) (Frame df)) (\<lambda>combined.
       multiply_all net factors combined fs))"

definition related_factors :: "(string, dataframe) dict \<Rightarrow> string \<Rightarrow> string list" where
  "related_factors factors var =
     map fst (filter (\<lambda>(f, df). var \<in> set (columns df)) factors)"

definition eliminate_var ::
  "network \<Rightarrow> string \<Rightarrow> (string, dataframe) dict \<Rightarrow> error + (string, dataframe) dict" where
  "eliminate_var net var factors =
     (case related_factors factors var of
        [] \<Rightarrow> Inr factors
      | f0 # fs \<Rightarrow>
          ebind (dict_get factors f0) (\<lambda>df0.
          ebind (multiply_all net factors df0 fs) (\<lambda>combined_factor.
          ebind (sum_out net var (Frame combined_factor)) (\<lambda>reduced_factor.
            Inr (dict_set (fold (\<lambda>f d. dict_del d f) (f0 # fs) factors)
                   (''reduced_'' @ var) reduced_factor)))))"

fun eliminate_all ::
  "network \<Rightarrow> string list \<Rightarrow> (string, dataframe) dict \<Rightarrow> error + (string, dataframe) dict" where
  "eliminate_all net [] factors = Inr factors"
| "eliminate_all net (var # vars) factors =
     ebind (eliminate_var net var factors) (eliminate_all net vars)"

text \<open>Step 2: the product of what is left; \<^verbatim>\<open>None\<close> when nothing is.\<close>

fun multiply_remaining ::
  "network \<Rightarrow> dataframe option \<Rightarrow> dataframe list \<Rightarrow> error + dataframe option" where
  "multiply_remaining net final_factor [] = Inr final_factor"
| "multiply_remaining net None (f # fs) = multiply_remaining net (Some f) fs"
| "multiply_remaining net (Some final_factor) (f # fs) =
     ebind (multiplication net (Frame final_factor) (Frame f)) (\<lambda>p.
       multiply_remaining net (Some p) fs)"

text \<open>Step 3: columns other than the query and \<^verbatim>\<open>prob\<close> are filtered or summed out.\<close>

fun remove_extra ::
  "network \<Rightarrow> (string, string) dict \<Rightarrow> string list \<Rightarrow> dataframe \<Rightarrow> error + dataframe" where
  "remove_extra net observed [] final_factor = Inr final_factor"
| "remove_extra net observed (var # vars) final_factor =
     (case map_of observed var of
        Some value \<Rightarrow>
          remove_extra net observed vars (drop_columns (filter_eq final_factor var value) [var])
      | None \<Rightarrow>
          ebind (sum_out net var (Frame final_factor)) (remove_extra net observed vars))"

text \<open>Step 4: \<^verbatim>\<open>final_factor['prob'] /= final_factor['prob'].sum()\<close>.\<close>

definition normalize :: "dataframe \<Rightarrow> error + dataframe" where
  "normalize final_factor =
     ebind (float_column final_factor ''prob'') (\<lambda>ps.
       Inr (assign_column final_factor ''prob''
              (map (\<lambda>p. Flt (fl_div p (series_sum ps))) ps)))"

text \<open>
  Steps 0 to 3 yield the factor that step 4 normalises. Step 0 assigns to the tables of
  \<^verbatim>\<open>self.network\<close>, so the network after the call is part of the outcome, also when a
  later step raises.
\<close>

definition final_factor_of ::
  "network \<Rightarrow> string \<Rightarrow> (string, string) dict \<Rightarrow> heuristic \<Rightarrow> (nat \<Rightarrow> nat) \<Rightarrow> error + dataframe" where
  "final_factor_of net query observed h rng =
     (let net = simplification net observed in
      ebind (elimination_order net h rng observed) (\<lambda>order.
      let order = filter (\<lambda>var. var \<noteq> query) order in
      ebind (eliminate_all net order (probabilities net)) (\<lambda>factors.
      ebind (multiply_remaining net None (map snd factors)) (\<lambda>final_factor.
        case final_factor of
          None \<Rightarrow> Inl AttributeError
        | Some final_factor \<Rightarrow>
            remove_extra net observed
              (filter (\<lambda>col. col \<notin> set [query, ''prob'']) (columns final_factor))
              final_factor))))"

text \<open>
  Step 4 assigns to the \<^verbatim>\<open>prob\<close> column of the final factor in place, and
  \<^verbatim>\<open>factors\<close> is a shallow copy of the network's dictionary. A table of the network
  that reaches step 4 untouched is therefore the very object the network holds, and the
  network holds it normalised afterwards. That is the case when it is the only factor
  left after step 1, step 1 has not written its key, and step 3 finds no column to remove:
  every product, every sum and every filter makes a new table.
\<close>

fun written_keys :: "network \<Rightarrow> string list \<Rightarrow> (string, dataframe) dict \<Rightarrow> string list" where
  "written_keys net [] factors = []"
| "written_keys net (var # vars) factors =
     (case eliminate_var net var factors of
        Inl e \<Rightarrow> []
      | Inr factors' \<Rightarrow>
          (if related_factors factors var = [] then [] else [''reduced_'' @ var]) @
          written_keys net vars factors')"

definition final_alias ::
  "network \<Rightarrow> string \<Rightarrow> (string, string) dict \<Rightarrow> heuristic \<Rightarrow> (nat \<Rightarrow> nat) \<Rightarrow> string option" where
  "final_alias net query observed h rng =
     (let net = simplification net observed in
      case elimination_order net h rng observed of
        Inl e \<Rightarrow> None
      | Inr order \<Rightarrow>
          let order = filter (\<lambda>var. var \<noteq> query) order in
          (case eliminate_all net order (probabilities net) of
             Inr [(key, final_factor)] \<Rightarrow>
               if key \<notin> set (written_keys net order (probabilities net)) \<and>
                  filter (\<lambda>col. col \<notin> set [query, ''prob'']) (columns final_factor) = []
               then Some key else None
           | _ \<Rightarrow> None))"

definition run ::
  "network \<Rightarrow> string \<Rightarrow> (string, string) dict \<Rightarrow> heuristic \<Rightarrow> (nat \<Rightarrow> nat)
     \<Rightarrow> (error + dataframe) \<times> network" where
  "run net query observed h rng =
     (let result = ebind (final_factor_of net query observed h rng) normalize;
          net' = simplification net observed
      in (result,
          case (final_alias net query observed h rng, result) of
            (Some key, Inr normalized) \<Rightarrow>
              net'\<lparr>probabilities := dict_set (probabilities net') key normalized\<rparr>
          | _ \<Rightarrow> net'))"

subsection \<open>Example networks\<close>

text \<open>
  A root \<open>A\<close> with one child \<open>B\<close>, both with the values \<open>T\<close> and \<open>F\<close>; the same root
  alone; and the pair again with a root that is never \<open>T\<close>.
\<close>

definition cpt_A :: dataframe where
  "cpt_A = \<lparr>columns = [''A'', ''prob''],
            rows = [[Str ''T'', Flt (Fin (3/10))], [Str ''F'', Flt (Fin (7/10))]]\<rparr>"

definition cpt_A_never :: dataframe where
  "cpt_A_never = \<lparr>columns = [''A'', ''prob''],
                  rows = [[Str ''T'', Flt (Fin 0)], [Str ''F'', Flt (Fin 1)]]\<rparr>"

definition cpt_B :: dataframe where
  "cpt_B = \<lparr>columns = [''B'', ''A'', ''prob''],
            rows = [[Str ''T'', Str ''T'', Flt (Fin (9/10))],
                    [Str ''F'', Str ''T'', Flt (Fin (1/10))],
                    [Str ''T'', Str ''F'', Flt (Fin (2/10))],
                    [Str ''F'', Str ''F'', Flt (Fin (8/10))]]\<rparr>"

definition single_net :: network where
  "single_net = \<lparr>nodes = [''A''], node_values = [(''A'', [''T'', ''F''])],
                 parents = [(''A'', [])], probabilities = [(''A'', cpt_A)]\<rparr>"

definition chain_net :: network where
  "chain_net = \<lparr>nodes = [''A'', ''B''],
                node_values = [(''A'', [''T'', ''F'']), (''B'', [''T'', ''F''])],
                parents = [(''A'', []), (''B'', [''A''])],
                probabilities = [(''A'', cpt_A), (''B'', cpt_B)]\<rparr>"

definition never_net :: network where
  "never_net = chain_net\<lparr>probabilities := [(''A'', cpt_A_never), (''B'', cpt_B)]\<rparr>"

subsection \<open>Auxiliary notions for the properties\<close>

text \<open>All evidence applied to one table, in the order of the evidence dictionary.\<close>

definition reduce_all :: "(string, string) dict \<Rightarrow> dataframe \<Rightarrow> dataframe" where
  "reduce_all observed df = fold (\<lambda>(var, value). reduce_evidence var value) observed df"

text \<open>
  A well-formed factor: distinct column labels, among them \<^verbatim>\<open>prob\<close>; every row has one
  cell per column, a finite number under \<^verbatim>\<open>prob\<close> and a value name (a string) under
  every other column.
\<close>

definition valid_cell :: "string \<times> cell \<Rightarrow> bool" where
  "valid_cell cx =
     (case snd cx of
        Flt (Fin p) \<Rightarrow> fst cx = ''prob''
      | Str s \<Rightarrow> fst cx \<noteq> ''prob''
      | _ \<Rightarrow> False)"

definition valid_row :: "string list \<Rightarrow> cell list \<Rightarrow> bool" where
  "valid_row cols r \<longleftrightarrow> length r = length cols \<and> list_all valid_cell (zip cols r)"

definition valid_factor :: "dataframe \<Rightarrow> bool" where
  "valid_factor df \<longleftrightarrow>
     distinct (columns df) \<and> ''prob'' \<in> set (columns df) \<and>
     list_all (valid_row (columns df)) (rows df)"

text \<open>The scope of a factor, and \<^verbatim>\<open>factor['prob'].sum()\<close>.\<close>

definition scope :: "dataframe \<Rightarrow> string list" where
  "scope df = filter (\<lambda>c. c \<noteq> ''prob'') (columns df)"

definition prob_total :: "dataframe \<Rightarrow> error + fl" where
  "prob_total df = ebind (float_column df ''prob'') (\<lambda>ps. Inr (series_sum ps))"

text \<open>Summing out several variables, one after the other.\<close>

fun sum_out_list :: "network \<Rightarrow> string list \<Rightarrow> dataframe \<Rightarrow> error + dataframe" where
  "sum_out_list net [] factor = Inr factor"
| "sum_out_list net (v # vs) factor =
     ebind (sum_out net v (Frame factor)) (sum_out_list net vs)"

text \<open>
  The product of two factors as the specification words it: the scope is the scope of
  the first factor followed by what the second adds; there is one row for every pair of
  a row of the first and a row of the second that agree on all common scope columns
  (every pair, when there is no common column); a row takes its values from the row of
  the first factor, then from the row of the second, and its \<^verbatim>\<open>prob\<close> is the product
  of the two.
\<close>

definition cell_at :: "string list \<Rightarrow> cell list \<Rightarrow> string \<Rightarrow> cell" where
  "cell_at cols r c = (case get_cell cols r c of Some x \<Rightarrow> x | None \<Rightarrow> Flt NaN)"

definition prob_of :: "string list \<Rightarrow> cell list \<Rightarrow> fl" where
  "prob_of cols r = (case get_cell cols r ''prob'' of Some (Flt p) \<Rightarrow> p | _ \<Rightarrow> NaN)"

definition common_scope :: "dataframe \<Rightarrow> dataframe \<Rightarrow> string list" where
  "common_scope A B = filter (\<lambda>c. c \<in> set (scope B)) (scope A)"

definition added_scope :: "dataframe \<Rightarrow> dataframe \<Rightarrow> string list" where
  "added_scope A B = filter (\<lambda>c. c \<notin> set (scope A)) (scope B)"

definition agree :: "dataframe \<Rightarrow> dataframe \<Rightarrow> cell list \<Rightarrow> cell list \<Rightarrow> bool" where
  "agree A B a b \<longleftrightarrow>
     list_all (\<lambda>c. get_cell (columns A) a c = get_cell (columns B) b c) (common_scope A B)"

definition joined_row :: "dataframe \<Rightarrow> dataframe \<Rightarrow> cell list \<Rightarrow> cell list \<Rightarrow> cell list" where
  "joined_row A B a b =
     map (cell_at (columns A) a) (scope A) @ map (cell_at (columns B) b) (added_scope A B) @
     [Flt (fl_mul (prob_of (columns A) a) (prob_of (columns B) b))]"

definition multiplication_spec :: "dataframe \<Rightarrow> dataframe \<Rightarrow> dataframe" where
  "multiplication_spec A B =
     \<lparr>columns = scope A @ added_scope A B @ [''prob''],
      rows = concat (map (\<lambda>a. map (joined_row A B a) (filter (agree A B a) (rows B))) (rows A))\<rparr>"

text \<open>The labels that \<open>multiplication\<close> uses for its own columns.\<close>

definition no_reserved :: "dataframe \<Rightarrow> bool" where
  "no_reserved df \<longleftrightarrow>
     ''dummy'' \<notin> set (columns df) \<and> ''prob_x'' \<notin> set (columns df) \<and>
     ''prob_y'' \<notin> set (columns df)"

text \<open>
  The pairs of rows that a join matches, and the part of \<open>multiplication\<close> between the
  choice of the join keys and the removal of the dummy key.
\<close>

definition matched_pairs ::
  "string list \<Rightarrow> dataframe \<Rightarrow> dataframe \<Rightarrow> (cell list \<times> cell list) list" where
  "matched_pairs keys df1 df2 =
     concat (map (\<lambda>l. map (\<lambda>r. (l, r))
       (filter (\<lambda>r. key_of keys (columns df2) r = key_of keys (columns df1) l) (rows df2)))
       (rows df1))"

definition product_core :: "string list \<Rightarrow> dataframe \<Rightarrow> dataframe \<Rightarrow> error + dataframe" where
  "product_core keys df1 df2 =
     ebind (merge df1 df2 keys) (\<lambda>m.
     ebind (float_column m ''prob_x'') (\<lambda>px.
     ebind (float_column m ''prob_y'') (\<lambda>py.
       Inr (drop_columns
              (assign_column m ''prob'' (map (\<lambda>(x, y). Flt (fl_mul x y)) (zip px py)))
              [''prob_x'', ''prob_y'']))))"

text \<open>A factor with a column named like the dummy key.\<close>

definition cpt_dummy :: dataframe where
  "cpt_dummy = \<lparr>columns = [''A'', ''dummy'', ''prob''],
                rows = [[Str ''T'', Str ''u'', Flt (Fin (1/2))],
                        [Str ''F'', Str ''v'', Flt (Fin (1/2))]]\<rparr>"

text \<open>A factor over a variable of its own.\<close>

definition cpt_C :: dataframe where
  "cpt_C = \<lparr>columns = [''C'', ''prob''],
            rows = [[Str ''T'', Flt (Fin (1/4))], [Str ''F'', Flt (Fin (3/4))]]\<rparr>"

section \<open>Properties\<close>

lemma fst_run:
  "fst (run net query observed h rng) = ebind (final_factor_of net query observed h rng) normalize"
  by (simp add: run_def Let_def)

subsection \<open>The caller's network after a call\<close>

text \<open>
  C1 (the claim fails on the code). The claim: a call of \<open>run\<close> leaves the caller's
  network unchanged, and a second call on the same network sees the original tables.
  The code: step 0 stores the evidence-reduced tables in the network itself. After
  \<open>run\<close> on the chain with query \<open>B\<close> and evidence \<open>A = T\<close>, the tables of the network have
  lost the column \<open>A\<close> and the rows with \<open>A = F\<close>; a second call with no evidence then
  returns the posterior given \<open>A = T\<close> (0.9 and 0.1) where a call on the original network
  returns the prior of \<open>B\<close> (0.41 and 0.59).
\<close>

theorem run_overwrites_network_tables:
  "probabilities (snd (run chain_net ''B'' [(''A'', ''T'')] (Named ''min-weight'') (\<lambda>_. 0))) =
     [(''A'', \<lparr>columns = [''prob''], rows = [[Flt (Fin (3/10))]]\<rparr>),
      (''B'', \<lparr>columns = [''B'', ''prob''],
               rows = [[Str ''T'', Flt (Fin (9/10))], [Str ''F'', Flt (Fin (1/10))]]\<rparr>)]
   \<and> snd (run chain_net ''B'' [(''A'', ''T'')] (Named ''min-weight'') (\<lambda>_. 0)) \<noteq> chain_net
   \<and> fst (run (snd (run chain_net ''B'' [(''A'', ''T'')] (Named ''min-weight'') (\<lambda>_. 0)))
            ''B'' [] (Named ''min-weight'') (\<lambda>_. 0)) =
       Inr \<lparr>columns = [''B'', ''prob''],
            rows = [[Str ''T'', Flt (Fin (9/10))], [Str ''F'', Flt (Fin (1/10))]]\<rparr>
   \<and> fst (run chain_net ''B'' [] (Named ''min-weight'') (\<lambda>_. 0)) =
       Inr \<lparr>columns = [''B'', ''prob''],
            rows = [[Str ''F'', Flt (Fin (59/100))], [Str ''T'', Flt (Fin (41/100))]]\<rparr>"
  by code_simp

subsection \<open>A literal ordering\<close>

lemma choose_var_Ordering:
  "choose_var net (Ordering xs) draw remaining = Inr (random_choice draw remaining)"
  by (simp add: choose_var_def)

lemma elimination_loop_Ordering:
  "elimination_loop net (Ordering xs) rng remaining order =
   elimination_loop net (Named ''random'') rng remaining order"
proof (induction "length remaining" arbitrary: remaining order rule: less_induct)
  case less
  show ?case
  proof (cases "remaining = []")
    case True
    then show ?thesis by (simp add: elimination_loop.simps [of _ _ _ "[]"])
  next
    case False
    let ?v = "random_choice (rng (length order)) remaining"
    have c: "choose_var net (Named ''random'') (rng (length order)) remaining = Inr ?v"
      by (simp add: choose_var_def)
    show ?thesis
    proof (cases "?v \<in> set remaining")
      case True
      then have "length (removeAll ?v remaining) < length remaining"
        by (rule length_removeAll_less)
      from less [OF this] True False c show ?thesis
        by (simp add: choose_var_Ordering elimination_loop.simps [of _ _ _ remaining])
    next
      case False
      with \<open>remaining \<noteq> []\<close> c show ?thesis
        by (simp add: choose_var_Ordering elimination_loop.simps [of _ _ _ remaining])
    qed
  qed
qed

lemma elimination_order_ignores_list:
  "elimination_order net (Ordering xs) rng observed =
   elimination_order net (Named ''random'') rng observed"
  by (simp only: elimination_order_def elimination_loop_Ordering)

text \<open>
  C2 (the claim fails on the code). The claim: a list passed as the heuristic is the
  elimination order. The code: \<open>elimination_order\<close> compares the argument with the
  heuristic names only, so a list falls into the last branch and every variable is a
  random choice. With draws that pick the second of the remaining variables first, the
  supplied order \<open>A, B\<close> yields \<open>B, A\<close>.
\<close>

theorem elimination_order_list_is_random:
  "elimination_order chain_net (Ordering [''A'', ''B'']) (\<lambda>_. 1) [] = Inr [''B'', ''A'']"
  by code_simp

subsection \<open>Summing out the only variable\<close>

lemma groupby_sum_no_keys:
  "rows df \<noteq> [] \<Longrightarrow> groupby_sum df [] target = Inl ValueError"
  by (simp add: groupby_sum_def)

lemma sum_out_whole_scope_fails:
  assumes "set (columns F) \<subseteq> {v, ''prob''}" and "rows F \<noteq> []"
  shows "sum_out net v (Frame F) = Inl ValueError"
proof -
  have "filter (\<lambda>col. col \<notin> set [v, ''prob'']) (columns F) = []"
    using assms(1) by (auto simp: filter_empty_conv)
  then show ?thesis
    using assms(2) by (simp add: sum_out_def resolve_def ebind_def groupby_sum_no_keys)
qed

text \<open>
  C3 (the claim fails on the code). The claim: summing out the only scope variable of a
  factor returns the one-row factor of empty scope that holds the total. The code groups
  by the remaining columns, of which there are none, and grouping by no column raises
  ValueError: the table of the root \<open>A\<close>, over \<open>A\<close> and \<open>prob\<close>, cannot be summed over \<open>A\<close>.
\<close>

theorem sum_out_only_variable_raises:
  "sum_out chain_net ''A'' (Frame cpt_A) = Inl ValueError"
  by code_simp

subsection \<open>Evidence incorporation\<close>

lemma filter_neq_absent: "v \<notin> set xs \<Longrightarrow> filter (\<lambda>c. c \<noteq> v) xs = xs"
  by (induction xs) auto

lemma map_fst_entries: "map fst (map (\<lambda>(k, v). (k, f k v)) d) = map fst d"
  by (induction d) auto

lemma dict_set_map:
  "distinct (map fst d) \<Longrightarrow> map_of d k = Some v0 \<Longrightarrow>
   dict_set d k v = map (\<lambda>(k', v'). (k', if k' = k then v else v')) d"
proof (induction d)
  case Nil
  then show ?case by simp
next
  case (Cons p d)
  obtain k' v' where p: "p = (k', v')" by (cases p)
  show ?case
  proof (cases "k' = k")
    case True
    with Cons.prems p have "k \<notin> fst ` set d" by auto
    then have "map (\<lambda>(k', v'). (k', if k' = k then v else v')) d = d"
      by (intro map_idI) force
    with True p show ?thesis by simp
  next
    case False
    with Cons p show ?thesis by simp
  qed
qed

lemma reduce_evidence_absent:
  "var \<notin> set (columns df) \<Longrightarrow> reduce_evidence var value df = df"
  by (simp add: reduce_evidence_def)

lemma columns_reduce_evidence:
  "columns (reduce_evidence var value df) = filter (\<lambda>c. c \<noteq> var) (columns df)"
  by (simp add: reduce_evidence_def drop_columns_def filter_eq_def filter_neq_absent)

lemma simplification_keys_map:
  "distinct ks \<Longrightarrow> set ks \<subseteq> set (map fst probs) \<Longrightarrow> distinct (map fst probs) \<Longrightarrow>
   simplification_keys var value ks probs =
     map (\<lambda>(k, df). (k, if k \<in> set ks then reduce_evidence var value df else df)) probs"
proof (induction ks arbitrary: probs)
  case Nil
  have "map (\<lambda>(k, df). (k, df)) probs = probs" by (induction probs) auto
  then show ?case by simp
next
  case (Cons key keys)
  have "key \<in> fst ` set probs" using Cons.prems(2) by simp
  then have "map_of probs key \<noteq> None" by (simp add: map_of_eq_None_iff)
  then obtain df where df: "map_of probs key = Some df" by blast
  have uniq: "d = df" if "(key, d) \<in> set probs" for d
    using that df Cons.prems(3) by (simp add: map_of_eq_Some_iff)
  let ?R = "reduce_evidence var value df"
  let ?P = "map (\<lambda>(k', d). (k', if k' = key then ?R else d)) probs"
  have step: "(if var \<in> set (columns df) then dict_set probs key ?R else probs) = ?P"
  proof (cases "var \<in> set (columns df)")
    case True
    show ?thesis
      by (simp only: True if_True dict_set_map [OF Cons.prems(3) df])
  next
    case False
    have R: "?R = df" using False by (rule reduce_evidence_absent)
    have "?P = probs"
    proof (rule map_idI)
      fix p assume pin: "p \<in> set probs"
      obtain k' d where p: "p = (k', d)" by (cases p)
      show "(case p of (k', d) \<Rightarrow> (k', if k' = key then ?R else d)) = p"
      proof (cases "k' = key")
        case True
        with pin p uniq have "d = df" by blast
        with True p R show ?thesis by simp
      next
        case False
        with p show ?thesis by simp
      qed
    qed
    with False show ?thesis by (simp only: if_False)
  qed
  have fst: "map fst ?P = map fst probs" by (rule map_fst_entries)
  have "simplification_keys var value keys ?P =
        map (\<lambda>(k, df). (k, if k \<in> set keys then reduce_evidence var value df else df)) ?P"
  proof (rule Cons.IH)
    show "distinct keys" using Cons.prems(1) by simp
    show "set keys \<subseteq> set (map fst ?P)" unfolding fst using Cons.prems(2) by simp
    show "distinct (map fst ?P)" unfolding fst by (rule Cons.prems(3))
  qed
  also have "\<dots> = map (\<lambda>(k, df). (k, if k \<in> set (key # keys) then reduce_evidence var value df else df)) probs"
    unfolding map_map
  proof (rule map_cong [OF refl])
    fix p assume pin: "p \<in> set probs"
    obtain k d where p: "p = (k, d)" by (cases p)
    have nk: "key \<notin> set keys" using Cons.prems(1) by simp
    show "((\<lambda>(k, df). (k, if k \<in> set keys then reduce_evidence var value df else df)) \<circ>
           (\<lambda>(k', d). (k', if k' = key then ?R else d))) p =
          (case p of (k, df) \<Rightarrow> (k, if k \<in> set (key # keys) then reduce_evidence var value df else df))"
    proof (cases "k = key")
      case True
      with pin p uniq have "d = df" by blast
      with True p nk show ?thesis by simp
    next
      case False
      with p show ?thesis by simp
    qed
  qed
  finally show ?case by (simp only: simplification_keys.simps df option.case step)
qed

lemma simplification_keys_all:
  "distinct (map fst probs) \<Longrightarrow>
   simplification_keys var value (map fst probs) probs =
     map (\<lambda>(k, df). (k, reduce_evidence var value df)) probs"
proof -
  assume d: "distinct (map fst probs)"
  have "simplification_keys var value (map fst probs) probs =
        map (\<lambda>(k, df). (k, if k \<in> set (map fst probs) then reduce_evidence var value df else df)) probs"
    by (rule simplification_keys_map) (use d in simp_all)
  also have "\<dots> = map (\<lambda>(k, df). (k, reduce_evidence var value df)) probs"
    by (rule map_cong [OF refl]) force
  finally show ?thesis .
qed

lemma simplification_items_map:
  "distinct (map fst probs) \<Longrightarrow>
   simplification_items observed probs = map (\<lambda>(k, df). (k, reduce_all observed df)) probs"
proof (induction observed arbitrary: probs)
  case Nil
  then show ?case by (simp add: reduce_all_def case_prod_unfold)
next
  case (Cons p observed)
  obtain var "value" where p: "p = (var, value)" by (cases p)
  let ?P = "map (\<lambda>(k, df). (k, reduce_evidence var value df)) probs"
  have "distinct (map fst ?P)" unfolding map_fst_entries by (rule Cons.prems)
  from Cons.IH [OF this] Cons.prems p show ?case
    by (simp add: simplification_keys_all reduce_all_def case_prod_unfold comp_def)
qed

lemma columns_reduce_all:
  "columns (reduce_all observed df) = filter (\<lambda>c. c \<notin> fst ` set observed) (columns df)"
proof (induction observed arbitrary: df)
  case Nil
  then show ?case by (simp add: reduce_all_def)
next
  case (Cons p observed)
  obtain var "value" where p: "p = (var, value)" by (cases p)
  have "reduce_all (p # observed) df = reduce_all observed (reduce_evidence var value df)"
    by (simp add: reduce_all_def p)
  then show ?case using Cons.IH [of "reduce_evidence var value df"]
    by (auto simp: columns_reduce_evidence p intro: filter_cong)
qed

lemma reduce_all_absent:
  "\<forall>var \<in> fst ` set observed. var \<notin> set (columns df) \<Longrightarrow> reduce_all observed df = df"
proof (induction observed)
  case Nil
  then show ?case by (simp add: reduce_all_def)
next
  case (Cons p observed)
  obtain var "value" where p: "p = (var, value)" by (cases p)
  from Cons p have "reduce_evidence var value df = df"
    by (simp add: reduce_evidence_absent)
  moreover have "reduce_all (p # observed) df = reduce_all observed (reduce_evidence var value df)"
    by (simp add: reduce_all_def p)
  ultimately show ?case using Cons by simp
qed

lemma reduce_all_idem: "reduce_all observed (reduce_all observed df) = reduce_all observed df"
  by (rule reduce_all_absent) (simp add: columns_reduce_all)

text \<open>
  C7. After \<open>simplification\<close>, no evidence variable is a scope column (a column other than
  \<^verbatim>\<open>prob\<close>) of any table of the network; and reducing a table whose columns do not
  contain the evidence variable returns the table as it is, with no error. The tables
  are the values of a dictionary, so their keys are distinct.
\<close>

theorem evidence_removed_from_every_factor:
  assumes "distinct (map fst (probabilities net))"
  shows "(\<forall>var \<in> fst ` set observed.
           \<forall>(key, df) \<in> set (probabilities (simplification net observed)).
             var \<notin> set (filter (\<lambda>col. col \<noteq> ''prob'') (columns df)))
         \<and> (\<forall>var value df. var \<notin> set (columns df) \<longrightarrow> reduce_evidence var value df = df)"
proof -
  have P: "probabilities (simplification net observed) =
        map (\<lambda>(k, df). (k, reduce_all observed df)) (probabilities net)"
    using assms by (simp add: simplification_def simplification_items_map)
  have "var \<notin> set (columns df)"
    if "var \<in> fst ` set observed" "(key, df) \<in> set (probabilities (simplification net observed))"
    for var key df
  proof -
    from that(2) obtain df0 where "df = reduce_all observed df0"
      unfolding P by auto
    then show ?thesis using that(1) by (simp add: columns_reduce_all)
  qed
  then show ?thesis
    by (auto simp: reduce_evidence_absent)
qed

theorem evidence_removed_witness:
  "distinct (map fst (probabilities chain_net))
   \<and> list_all (\<lambda>(key, df). ''A'' \<notin> set (filter (\<lambda>col. col \<noteq> ''prob'') (columns df)))
        (probabilities (simplification chain_net [(''A'', ''T'')]))
   \<and> reduce_evidence ''B'' ''T'' cpt_A = cpt_A"
proof -
  have d: "distinct (map fst (probabilities chain_net))"
    by (simp add: chain_net_def)
  have c: "''B'' \<notin> set (columns cpt_A)"
    by (simp add: cpt_A_def)
  from evidence_removed_from_every_factor [OF d, of "[(''A'', ''T'')]"] c d
  show ?thesis
    by (simp add: list_all_iff)
qed

text \<open>
  C10. Evidence incorporation is idempotent: applying \<open>simplification\<close> a second time with
  the same evidence changes no table, since the first application has removed every
  evidence column.
\<close>

theorem simplification_idempotent:
  assumes "distinct (map fst (probabilities net))"
  shows "simplification (simplification net observed) observed = simplification net observed"
proof -
  let ?P = "map (\<lambda>(k, df). (k, reduce_all observed df)) (probabilities net)"
  have "distinct (map fst ?P)" unfolding map_fst_entries by (rule assms)
  from simplification_items_map [OF this] assms show ?thesis
    by (simp add: simplification_def simplification_items_map reduce_all_idem case_prod_unfold comp_def)
qed

theorem simplification_idempotent_witness:
  "distinct (map fst (probabilities chain_net))
   \<and> simplification (simplification chain_net [(''A'', ''T'')]) [(''A'', ''T'')] =
       simplification chain_net [(''A'', ''T'')]"
proof -
  have d: "distinct (map fst (probabilities chain_net))"
    by (simp add: chain_net_def)
  from simplification_idempotent [OF d] d show ?thesis
    by simp
qed

subsection \<open>Normalisation\<close>

lemma the_floats_Inr: "the_floats cs = Inr xs \<longleftrightarrow> cs = map (\<lambda>x. Some (Flt x)) xs"
proof (induction cs arbitrary: xs rule: the_floats.induct)
  case 1
  then show ?case by auto
next
  case (2 x cs)
  show ?case
  proof (cases "the_floats cs")
    case (Inl e)
    with 2 [of "tl xs"] show ?thesis by (cases xs) (auto simp: ebind_def)
  next
    case (Inr ys)
    with 2 [of ys] 2 [of "tl xs"] show ?thesis by (cases xs) (auto simp: ebind_def)
  qed
qed (auto simp: ebind_def)

lemma float_column_Inr:
  "float_column df c = Inr ps \<longleftrightarrow>
   c \<in> set (columns df) \<and> map (\<lambda>r. get_cell (columns df) r c) (rows df) = map (\<lambda>x. Some (Flt x)) ps"
  by (simp add: float_column_def the_floats_Inr)

lemma float_column_length: "float_column df c = Inr ps \<Longrightarrow> length ps = length (rows df)"
  unfolding float_column_Inr by (metis length_map)

lemma get_cell_assign_cell:
  "get_cell cols r c = Some y \<Longrightarrow> get_cell cols (assign_cell cols c r v) c = Some v"
proof -
  assume a: "get_cell cols r c = Some y"
  have "map_of (zip cols r) c = Some y \<Longrightarrow>
        map_of (zip cols (map (\<lambda>(c', x). if c' = c then v else x) (zip cols r))) c = Some v"
  proof (induction cols arbitrary: r)
    case Nil
    then show ?case by simp
  next
    case (Cons a cs)
    then show ?case by (cases r) (auto split: if_splits)
  qed
  moreover have "c \<in> set cols" using a unfolding get_cell_def by (meson map_of_SomeD set_zip_leftD)
  ultimately show ?thesis using a by (simp add: get_cell_def assign_cell_def)
qed

lemma float_column_assign:
  assumes "float_column df c = Inr ps" and "length qs = length ps"
  shows "float_column (assign_column df c (map Flt qs)) c = Inr qs"
proof -
  from assms(1) have cin: "c \<in> set (columns df)"
    and cells: "map (\<lambda>r. get_cell (columns df) r c) (rows df) = map (\<lambda>x. Some (Flt x)) ps"
    by (simp_all add: float_column_Inr)
  have len: "length (rows df) = length qs"
    using assms float_column_length by fastforce
  have ex: "\<And>r. r \<in> set (rows df) \<Longrightarrow> \<exists>y. get_cell (columns df) r c = Some y"
  proof -
    fix r assume "r \<in> set (rows df)"
    then have "get_cell (columns df) r c \<in> set (map (\<lambda>r. get_cell (columns df) r c) (rows df))"
      by simp
    then show "\<exists>y. get_cell (columns df) r c = Some y" unfolding cells by auto
  qed
  have "map (\<lambda>(r, v). get_cell (columns df) (assign_cell (columns df) c r v) c)
               (zip (rows df) (map Flt qs)) = map (\<lambda>(r, v). Some v) (zip (rows df) (map Flt qs))"
  proof (rule map_cong [OF refl])
    fix z assume "z \<in> set (zip (rows df) (map Flt qs))"
    moreover obtain r v where z: "z = (r, v)" by (cases z)
    ultimately have "r \<in> set (rows df)" by (auto dest: set_zip_leftD)
    from ex [OF this] obtain y where "get_cell (columns df) r c = Some y" by blast
    then show "(case z of (r, v) \<Rightarrow> get_cell (columns df) (assign_cell (columns df) c r v) c) =
               (case z of (r, v) \<Rightarrow> Some v)"
      by (simp add: z get_cell_assign_cell)
  qed
  also have "\<dots> = map Some (map snd (zip (rows df) (map Flt qs)))" 
    by (simp add: case_prod_unfold comp_def)
  also have "\<dots> = map (\<lambda>x. Some (Flt x)) qs"
    using len by (simp add: comp_def)
  finally show ?thesis
    using cin by (simp add: float_column_Inr assign_column_def comp_def case_prod_unfold)
qed

lemma columns_assign_present:
  "c \<in> set (columns df) \<Longrightarrow> columns (assign_column df c vs) = columns df"
  by (simp add: assign_column_def)

lemma fl_div_zero_not_Fin: "fl_div p (Fin 0) \<noteq> Fin r"
  by (cases p) auto

lemma normalize_Inr:
  assumes "float_column f ''prob'' = Inr ps"
  shows "\<exists>t. normalize f = Inr t \<and> columns t = columns f \<and>
             float_column t ''prob'' = Inr (map (\<lambda>p. fl_div p (series_sum ps)) ps)"
proof -
  let ?qs = "map (\<lambda>p. fl_div p (series_sum ps)) ps"
  let ?t = "assign_column f ''prob'' (map Flt ?qs)"
  have "normalize f = Inr ?t"
    using assms by (simp add: normalize_def ebind_def comp_def)
  moreover have "columns ?t = columns f"
    using assms by (simp add: columns_assign_present float_column_Inr)
  moreover have "float_column ?t ''prob'' = Inr ?qs"
    using assms by (intro float_column_assign) simp_all
  ultimately show ?thesis by blast
qed

lemma series_sum_nonneg_zero:
  "\<forall>p \<in> set ps. \<exists>a. 0 \<le> a \<and> p = Fin a \<Longrightarrow> series_sum ps = Fin 0 \<Longrightarrow> \<forall>p \<in> set ps. p = Fin 0"
proof -
  assume nn: "\<forall>p \<in> set ps. \<exists>a. 0 \<le> a \<and> p = Fin a" and z: "series_sum ps = Fin 0"
  have "\<forall>p \<in> set ps. \<exists>a. 0 \<le> a \<and> p = Fin a \<Longrightarrow>
        \<exists>s. 0 \<le> s \<and> series_sum ps = Fin s \<and> (s = 0 \<longrightarrow> (\<forall>p \<in> set ps. p = Fin 0))"
  proof (induction ps)
    case Nil
    then show ?case by (simp add: series_sum_def)
  next
    case (Cons p ps)
    then obtain a where a: "0 \<le> a" "p = Fin a" by auto
    from Cons obtain s where s: "0 \<le> s" "series_sum ps = Fin s" "s = 0 \<longrightarrow> (\<forall>p \<in> set ps. p = Fin 0)"
      by auto
    have "series_sum (p # ps) = Fin (a + s)"
      using a s by (simp add: series_sum_def)
    moreover have "a + s = 0 \<longrightarrow> a = 0 \<and> s = 0" using a s by linarith
    ultimately show ?case using a s by auto
  qed
  with nn z show ?thesis by auto
qed

text \<open>
  C4 as the code has it. When the prob values of the final factor sum to zero, \<open>run\<close>
  reports no failure: step 4 divides every prob value by that zero and the table is
  returned. No entry of its prob column is a number any more (each is NaN or infinite),
  and where the prob values were non-negative numbers every entry is NaN.
\<close>

theorem zero_total_not_reported:
  assumes "final_factor_of net query observed h rng = Inr f"
    and "float_column f ''prob'' = Inr ps"
    and "series_sum ps = Fin 0"
  shows "\<exists>t. fst (run net query observed h rng) = Inr t \<and> columns t = columns f \<and>
             float_column t ''prob'' = Inr (map (\<lambda>p. fl_div p (Fin 0)) ps) \<and>
             (\<forall>p \<in> set ps. \<forall>r. fl_div p (Fin 0) \<noteq> Fin r) \<and>
             ((\<forall>p \<in> set ps. \<exists>a. 0 \<le> a \<and> p = Fin a) \<longrightarrow>
                float_column t ''prob'' = Inr (replicate (length ps) NaN))"
proof -
  from normalize_Inr [OF assms(2)] obtain t where t: "normalize f = Inr t" "columns t = columns f"
    "float_column t ''prob'' = Inr (map (\<lambda>p. fl_div p (Fin 0)) ps)"
    unfolding assms(3) by blast
  have "fst (run net query observed h rng) = Inr t"
    using assms(1) t(1) by (simp add: fst_run ebind_def)
  moreover have "map (\<lambda>p. fl_div p (Fin 0)) ps = replicate (length ps) NaN"
    if "\<forall>p \<in> set ps. \<exists>a. 0 \<le> a \<and> p = Fin a"
  proof -
    from series_sum_nonneg_zero [OF that assms(3)] have "\<forall>p \<in> set ps. fl_div p (Fin 0) = NaN"
      by auto
    then show ?thesis by (simp add: map_replicate_const [symmetric] cong: map_cong)
  qed
  ultimately show ?thesis using t by (auto simp: fl_div_zero_not_Fin)
qed

theorem zero_total_witness:
  "final_factor_of never_net ''B'' [(''A'', ''T'')] (Named ''min-weight'') (\<lambda>_. 0) =
     Inr \<lparr>columns = [''B'', ''prob''],
          rows = [[Str ''T'', Flt (Fin 0)], [Str ''F'', Flt (Fin 0)]]\<rparr>
   \<and> float_column \<lparr>columns = [''B'', ''prob''],
          rows = [[Str ''T'', Flt (Fin 0)], [Str ''F'', Flt (Fin 0)]]\<rparr> ''prob'' = Inr [Fin 0, Fin 0]
   \<and> series_sum [Fin 0, Fin 0] = Fin 0
   \<and> (\<exists>t. fst (run never_net ''B'' [(''A'', ''T'')] (Named ''min-weight'') (\<lambda>_. 0)) = Inr t
          \<and> columns t = [''B'', ''prob''] \<and> float_column t ''prob'' = Inr [NaN, NaN])"
proof -
  have h1: "final_factor_of never_net ''B'' [(''A'', ''T'')] (Named ''min-weight'') (\<lambda>_. 0) =
     Inr \<lparr>columns = [''B'', ''prob''],
          rows = [[Str ''T'', Flt (Fin 0)], [Str ''F'', Flt (Fin 0)]]\<rparr>"
    by code_simp
  have h2: "float_column \<lparr>columns = [''B'', ''prob''],
          rows = [[Str ''T'', Flt (Fin 0)], [Str ''F'', Flt (Fin 0)]]\<rparr> ''prob'' = Inr [Fin 0, Fin 0]"
    by code_simp
  have h3: "series_sum [Fin 0, Fin 0] = Fin 0"
    by (simp add: series_sum_def)
  from zero_total_not_reported [OF h1 h2 h3] h1 h2 h3 show ?thesis
    by simp
qed

text \<open>
  C4 (the claim fails on the code). The claim: a final factor whose prob values sum to
  zero makes \<open>run\<close> report a failure of its own kind. On the chain whose root is never
  \<open>T\<close>, the query \<open>B\<close> with evidence \<open>A = T\<close> reaches step 4 with the prob values 0 and 0, and
  \<open>run\<close> returns the table with NaN in both rows.
\<close>

theorem zero_total_returns_nan:
  "final_factor_of never_net ''B'' [(''A'', ''T'')] (Named ''min-weight'') (\<lambda>_. 0) =
     Inr \<lparr>columns = [''B'', ''prob''],
          rows = [[Str ''T'', Flt (Fin 0)], [Str ''F'', Flt (Fin 0)]]\<rparr>
   \<and> fst (run never_net ''B'' [(''A'', ''T'')] (Named ''min-weight'') (\<lambda>_. 0)) =
     Inr \<lparr>columns = [''B'', ''prob''], rows = [[Str ''T'', Flt NaN], [Str ''F'', Flt NaN]]\<rparr>"
  by code_simp

subsection \<open>Marginalisation keeps the total\<close>

lemma get_cell_zip:
  "distinct cols \<Longrightarrow> length r = length cols \<Longrightarrow>
   get_cell cols r c = Some x \<longleftrightarrow> (c, x) \<in> set (zip cols r)"
  by (simp add: get_cell_def map_of_eq_Some_iff)

lemma valid_row_cell:
  assumes "valid_row cols r" and "distinct cols" and "c \<in> set cols"
  shows "\<exists>x. get_cell cols r c = Some x \<and> valid_cell (c, x)"
proof -
  from assms(1) have len: "length r = length cols" and all: "list_all valid_cell (zip cols r)"
    by (simp_all add: valid_row_def)
  from assms(3) len obtain x where x: "(c, x) \<in> set (zip cols r)"
    by (metis in_set_impl_in_set_zip1)
  with all have "valid_cell (c, x)" by (simp add: list_all_iff)
  with x show ?thesis using assms(2) len by (auto simp: get_cell_zip)
qed

lemma valid_row_prob:
  assumes "valid_row cols r" and "distinct cols" and "''prob'' \<in> set cols"
  shows "\<exists>p. get_cell cols r ''prob'' = Some (Flt (Fin p))"
proof -
  from valid_row_cell [OF assms] obtain x where
    "get_cell cols r ''prob'' = Some x" "valid_cell (''prob'', x)" by blast
  then show ?thesis by (auto simp: valid_cell_def split: cell.splits fl.splits)
qed

lemma valid_row_str:
  assumes "valid_row cols r" and "distinct cols" and "c \<in> set cols" and "c \<noteq> ''prob''"
  shows "\<exists>s. get_cell cols r c = Some (Str s)"
proof -
  from valid_row_cell [OF assms(1-3)] obtain x where
    "get_cell cols r c = Some x" "valid_cell (c, x)" by blast
  then show ?thesis using assms(4) by (auto simp: valid_cell_def split: cell.splits fl.splits)
qed

lemma map_ex_list: "(\<forall>r \<in> set rs. \<exists>a. f r = g a) \<Longrightarrow> \<exists>as. map f rs = map g as"
proof (induction rs)
  case Nil
  then show ?case by simp
next
  case (Cons r rs)
  then obtain a as where "f r = g a" "map f rs = map g as" by auto
  then have "map f (r # rs) = map g (a # as)" by simp
  then show ?case by blast
qed

lemma valid_factor_float_column:
  assumes "valid_factor F"
  shows "\<exists>as. float_column F ''prob'' = Inr (map Fin as)"
proof -
  from assms have d: "distinct (columns F)" and p: "''prob'' \<in> set (columns F)"
    and r: "\<forall>r \<in> set (rows F). valid_row (columns F) r"
    by (simp_all add: valid_factor_def list_all_iff)
  have "\<forall>r \<in> set (rows F). \<exists>a. get_cell (columns F) r ''prob'' = Some (Flt (Fin a))"
    using r d p by (blast dest: valid_row_prob)
  from map_ex_list [OF this] obtain as where
    "map (\<lambda>r. get_cell (columns F) r ''prob'') (rows F) = map (\<lambda>a. Some (Flt (Fin a))) as"
    by blast
  then have "float_column F ''prob'' = Inr (map Fin as)"
    using p by (simp add: float_column_Inr comp_def)
  then show ?thesis by blast
qed

lemma the_strings_Inr: "the_strings cs = Inr ss \<longleftrightarrow> cs = map (\<lambda>s. Some (Str s)) ss"
proof (induction cs arbitrary: ss rule: the_strings.induct)
  case 1
  then show ?case by auto
next
  case (2 s cs)
  show ?case
  proof (cases "the_strings cs")
    case (Inl e)
    with 2 [of "tl ss"] show ?thesis by (cases ss) (auto simp: ebind_def)
  next
    case (Inr ys)
    with 2 [of ys] 2 [of "tl ss"] show ?thesis by (cases ss) (auto simp: ebind_def)
  qed
qed (auto simp: ebind_def)

lemma group_keys_Inr:
  "group_keys keys cols rs = Inr ks \<longleftrightarrow>
   map (key_of keys cols) rs = map (map (\<lambda>s. Some (Str s))) ks"
proof (induction rs arbitrary: ks)
  case Nil
  then show ?case by auto
next
  case (Cons r rs)
  show ?case
  proof (cases "the_strings (key_of keys cols r)")
    case (Inl e)
    then have "\<And>k. key_of keys cols r \<noteq> map (\<lambda>s. Some (Str s)) k"
      using the_strings_Inr [of "key_of keys cols r"] by auto
    with Inl show ?thesis by (cases ks) (auto simp: ebind_def)
  next
    case k: (Inr k)
    then have kk: "key_of keys cols r = map (\<lambda>s. Some (Str s)) k"
      by (simp add: the_strings_Inr)
    have inj: "\<And>k'. map (\<lambda>s. Some (Str s)) k = map (\<lambda>s. Some (Str s)) k' \<longleftrightarrow> k = k'"
      by (auto simp: inj_on_def dest!: map_inj_on)
    show ?thesis
    proof (cases "group_keys keys cols rs")
      case (Inl e)
      with Cons [of "tl ks"] k show ?thesis by (cases ks) (auto simp: ebind_def)
    next
      case (Inr ks')
      with Cons [of ks'] Cons [of "tl ks"] k kk inj show ?thesis
        by (cases ks) (auto simp: ebind_def)
    qed
  qed
qed

lemma valid_group_keys:
  assumes "valid_factor F" and "set keys \<subseteq> set (columns F)" and "''prob'' \<notin> set keys"
  shows "\<exists>ks. group_keys keys (columns F) (rows F) = Inr ks \<and> length ks = length (rows F) \<and>
              (\<forall>k \<in> set ks. length k = length keys)"
proof -
  from assms have d: "distinct (columns F)"
    and r: "\<forall>r \<in> set (rows F). valid_row (columns F) r"
    by (simp_all add: valid_factor_def list_all_iff)
  have "\<exists>k. key_of keys (columns F) r = map (\<lambda>s. Some (Str s)) k" if "r \<in> set (rows F)" for r
  proof -
    have "\<forall>c \<in> set keys. \<exists>s. get_cell (columns F) r c = Some (Str s)"
      using r d that assms(2,3) by (metis subsetD valid_row_str)
    from map_ex_list [OF this] show ?thesis by (simp add: key_of_def)
  qed
  then have "\<forall>r \<in> set (rows F). \<exists>k. key_of keys (columns F) r = map (\<lambda>s. Some (Str s)) k"
    by blast
  from map_ex_list [OF this] obtain ks where
    ks: "map (key_of keys (columns F)) (rows F) = map (map (\<lambda>s. Some (Str s))) ks" by blast
  then have "group_keys keys (columns F) (rows F) = Inr ks" by (simp add: group_keys_Inr)
  moreover have "length ks = length (rows F)" using ks by (metis length_map)
  moreover have "length k = length keys" if "k \<in> set ks" for k
  proof -
    from that have "map (\<lambda>s. Some (Str s)) k \<in> set (map (key_of keys (columns F)) (rows F))"
      unfolding ks by simp
    then obtain r where "map (\<lambda>s. Some (Str s)) k = key_of keys (columns F) r" by auto
    then show ?thesis by (metis key_of_def length_map)
  qed
  ultimately show ?thesis by blast
qed


lemma series_sum_Fin: "series_sum (map Fin as) = Fin (sum_list as)"
proof -
  have "foldr fl_add (map Fin as) (Fin 0) = Fin (sum_list as)"
    by (induction as) auto
  moreover have "filter (\<lambda>x. x \<noteq> NaN) (map Fin as) = map Fin as"
    by (induction as) auto
  ultimately show ?thesis by (simp add: series_sum_def)
qed

lemma group_sum_Fin:
  "group_sum ks (map Fin as) k =
   Fin (sum_list (map snd (filter (\<lambda>(k', a). k' = k) (zip ks as))))"
proof -
  have "map snd (filter (\<lambda>(k', p). k' = k) (zip ks (map Fin as))) =
        map Fin (map snd (filter (\<lambda>(k', a). k' = k) (zip ks as)))"
  proof (induction ks arbitrary: as)
    case Nil
    then show ?case by simp
  next
    case (Cons k0 ks)
    then show ?case by (cases as) auto
  qed
  then show ?thesis unfolding group_sum_def by (simp only: series_sum_Fin)
qed

lemma sum_list_delta_absent:
  fixes a :: rat
  shows "k0 \<notin> set K \<Longrightarrow> sum_list (map (\<lambda>k. if k0 = k then a else 0) K) = 0"
  by (induction K) auto

lemma sum_list_delta:
  fixes a :: rat
  shows "distinct K \<Longrightarrow> k0 \<in> set K \<Longrightarrow> sum_list (map (\<lambda>k. if k0 = k then a else 0) K) = a"
  by (induction K) (auto simp: sum_list_delta_absent)

lemma group_total:
  fixes kas :: "('k \<times> rat) list"
  assumes "distinct K" and "fst ` set kas \<subseteq> set K"
  shows "sum_list (map (\<lambda>k. sum_list (map snd (filter (\<lambda>(k', a). k' = k) kas))) K) =
         sum_list (map snd kas)"
  using assms(2)
proof (induction kas)
  case Nil
  then show ?case by simp
next
  case (Cons ka kas)
  obtain k0 a0 where ka: "ka = (k0, a0)" by (cases ka)
  have "sum_list (map (\<lambda>k. sum_list (map snd (filter (\<lambda>(k', a). k' = k) (ka # kas)))) K) =
        sum_list (map (\<lambda>k. (if k0 = k then a0 else 0) +
                     sum_list (map snd (filter (\<lambda>(k', a). k' = k) kas))) K)"
    by (rule arg_cong [where f = sum_list], rule map_cong [OF refl]) (simp add: ka)
  also have "\<dots> = sum_list (map (\<lambda>k. if k0 = k then a0 else 0) K) +
                   sum_list (map (\<lambda>k. sum_list (map snd (filter (\<lambda>(k', a). k' = k) kas))) K)"
    by (rule sum_list_addf)
  also have "\<dots> = a0 + sum_list (map snd kas)"
    using Cons ka assms(1) by (simp add: sum_list_delta)
  finally show ?case by (simp add: ka)
qed

lemma get_cell_append_last:
  "length xs = length cs \<Longrightarrow> c \<notin> set cs \<Longrightarrow> get_cell (cs @ [c]) (xs @ [x]) c = Some x"
proof -
  assume len: "length xs = length cs" and c: "c \<notin> set cs"
  have n: "map_of (zip cs xs) c = None"
    using c by (auto simp: map_of_eq_None_iff dest: set_zip_leftD)
  show ?thesis
    by (simp add: get_cell_def map_add_def n len)
qed


lemma sum_out_valid:
  assumes v: "valid_factor F"
    and rem: "filter (\<lambda>col. col \<notin> set [v, ''prob'']) (columns F) \<noteq> []"
  shows "\<exists>G. sum_out net v (Frame F) = Inr G \<and> prob_total G = prob_total F \<and> valid_factor G \<and>
             columns G = filter (\<lambda>col. col \<notin> set [v, ''prob'']) (columns F) @ [''prob'']"
proof -
  let ?keys = "filter (\<lambda>col. col \<notin> set [v, ''prob'']) (columns F)"
  from valid_factor_float_column [OF v] obtain as where
    as: "float_column F ''prob'' = Inr (map Fin as)" by blast
  have sub: "set ?keys \<subseteq> set (columns F)" and np: "''prob'' \<notin> set ?keys" by auto
  have dk: "distinct ?keys" using v by (simp add: valid_factor_def)
  from valid_group_keys [OF v sub np] obtain ks where
    ks: "group_keys ?keys (columns F) (rows F) = Inr ks"
    and lks: "length ks = length (rows F)"
    and lk: "\<forall>k \<in> set ks. length k = length ?keys" by blast
  have las: "length as = length ks"
    using float_column_length [OF as] lks by simp
  let ?K = "sort (remdups ks)"
  let ?g = "\<lambda>k. sum_list (map snd (filter (\<lambda>(k', a). k' = k) (zip ks as)))"
  let ?G = "\<lparr>columns = ?keys @ [''prob''],
             rows = map (\<lambda>k. map Str k @ [Flt (Fin (?g k))]) ?K\<rparr>"
  have G: "sum_out net v (Frame F) = Inr ?G"
    using rem sub as ks
    by (simp add: sum_out_def resolve_def ebind_def groupby_sum_def group_sum_Fin del: set_filter)
  have cell: "get_cell (?keys @ [''prob'']) (map Str k @ [Flt (Fin (?g k))]) ''prob'' =
              Some (Flt (Fin (?g k)))" if "k \<in> set ?K" for k
  proof -
    from that lk have "length (map Str k) = length ?keys" by simp
    then show ?thesis using np by (rule get_cell_append_last)
  qed
  have fc: "float_column ?G ''prob'' = Inr (map Fin (map ?g ?K))"
    unfolding float_column_Inr using cell by (simp add: comp_def del: set_filter)
  have "sum_list (map ?g ?K) = sum_list (map snd (zip ks as))"
  proof (rule group_total)
    show "distinct ?K" by simp
    show "fst ` set (zip ks as) \<subseteq> set ?K" by (auto dest: set_zip_leftD)
  qed
  also have "\<dots> = sum_list as" using las by simp
  finally have tot: "sum_list (map ?g ?K) = sum_list as" .
  have "series_sum (map Fin (map ?g ?K)) = series_sum (map Fin as)"
    by (simp only: series_sum_Fin tot)
  then have total: "prob_total ?G = prob_total F"
    unfolding prob_total_def fc as by (simp only: ebind_def sum.case)
  have "valid_row (?keys @ [''prob'']) (map Str k @ [Flt (Fin (?g k))])" if "k \<in> set ?K" for k
  proof -
    from that lk have len: "length k = length ?keys" by simp
    have "list_all valid_cell (zip ?keys (map Str k))"
      unfolding list_all_iff
    proof
      fix cx assume cx: "cx \<in> set (zip ?keys (map Str k))"
      obtain c x where "cx = (c, x)" by (cases cx)
      with cx have "c \<in> set ?keys" "x \<in> set (map Str k)"
        by (auto dest: set_zip_leftD set_zip_rightD)
      with \<open>cx = (c, x)\<close> show "valid_cell cx" by (auto simp: valid_cell_def)
    qed
    then show ?thesis using len by (simp add: valid_row_def valid_cell_def del: set_filter)
  qed
  then have "valid_factor ?G"
    using dk np by (simp add: valid_factor_def list_all_iff del: set_filter)
  with G total show ?thesis by (intro exI [of _ ?G]) simp
qed


lemma sum_out_list_valid:
  assumes "valid_factor F" and "distinct vs" and "set vs \<subseteq> set (scope F)"
    and "set vs \<noteq> set (scope F)"
  shows "\<exists>G. sum_out_list net vs F = Inr G \<and> prob_total G = prob_total F \<and> valid_factor G \<and>
             set (scope G) = set (scope F) - set vs"
  using assms
proof (induction vs arbitrary: F)
  case Nil
  then show ?case by simp
next
  case (Cons v vs)
  let ?keys = "filter (\<lambda>col. col \<notin> set [v, ''prob'']) (columns F)"
  from Cons.prems(3,4) obtain c where c: "c \<in> set (scope F)" "c \<notin> set (v # vs)" by auto
  then have "c \<in> set ?keys" by (simp add: scope_def)
  then have ne: "?keys \<noteq> []" by (metis empty_iff empty_set)
  from sum_out_valid [OF Cons.prems(1) ne, of net] obtain G1 where
    G1: "sum_out net v (Frame F) = Inr G1" "prob_total G1 = prob_total F" "valid_factor G1"
      "columns G1 = ?keys @ [''prob'']" by blast
  have sc: "set (scope G1) = set (scope F) - {v}"
    by (auto simp: scope_def G1(4))
  have "\<exists>G. sum_out_list net vs G1 = Inr G \<and> prob_total G = prob_total G1 \<and> valid_factor G \<and>
            set (scope G) = set (scope G1) - set vs"
  proof (rule Cons.IH [OF G1(3)])
    show "distinct vs" using Cons.prems(2) by simp
    show "set vs \<subseteq> set (scope G1)" using Cons.prems(2,3) sc by auto
    show "set vs \<noteq> set (scope G1)" using c sc by auto
  qed
  then obtain G where "sum_out_list net vs G1 = Inr G" "prob_total G = prob_total G1"
    "valid_factor G" "set (scope G) = set (scope G1) - set vs" by blast
  then show ?case using G1 sc by (auto simp: ebind_def)
qed

text \<open>
  Marginalisation in exact arithmetic. On a well-formed factor, summing out scope
  variables one after the other, as long as at least one scope variable is left, succeeds,
  and the scope loses exactly the variables summed out. With the additions of \<open>fl_add\<close>,
  which are those of the rationals, the total of the \<^verbatim>\<open>prob\<close> column is kept. The
  program adds 64-bit floats: there the two totals are sums of the same numbers taken in
  a different order, and the rounding of each addition, which \<open>fl_add\<close> leaves out, can
  make them differ in the last bit (for the values 0.3, 0.7, 0.4, 0.6 the sum in row order
  is 2.0, the sum of the group sums 0.3 + 0.4 and 0.7 + 0.6 is 1.9999999999999998). The
  equality below is therefore one of the exact model only.
\<close>

theorem sum_out_preserves_total:
  assumes "valid_factor F" and "distinct vs" and "set vs \<subseteq> set (scope F)"
    and "set vs \<noteq> set (scope F)"
  shows "\<exists>G. sum_out_list net vs F = Inr G \<and> prob_total G = prob_total F \<and>
             set (scope G) = set (scope F) - set vs \<and>
             (\<forall>v. vs = [v] \<longrightarrow> sum_out net v (Frame F) = Inr G)"
proof -
  from sum_out_list_valid [OF assms, of net] obtain G where
    G: "sum_out_list net vs F = Inr G" "prob_total G = prob_total F"
       "set (scope G) = set (scope F) - set vs" by blast
  have "sum_out net v (Frame F) = Inr G" if "vs = [v]" for v
    using G(1) that by (cases "sum_out net v (Frame F)") (simp_all add: ebind_def)
  with G show ?thesis by blast
qed

theorem sum_out_preserves_total_witness:
  "valid_factor cpt_B \<and> distinct [''A''] \<and> set [''A''] \<subseteq> set (scope cpt_B)
   \<and> set [''A''] \<noteq> set (scope cpt_B)
   \<and> sum_out chain_net ''A'' (Frame cpt_B) =
       Inr \<lparr>columns = [''B'', ''prob''],
            rows = [[Str ''F'', Flt (Fin (9/10))], [Str ''T'', Flt (Fin (11/10))]]\<rparr>
   \<and> prob_total \<lparr>columns = [''B'', ''prob''],
            rows = [[Str ''F'', Flt (Fin (9/10))], [Str ''T'', Flt (Fin (11/10))]]\<rparr> =
       prob_total cpt_B"
proof -
  have h1: "valid_factor cpt_B" by code_simp
  have h2: "distinct [''A'']" by simp
  have h3: "set [''A''] \<subseteq> set (scope cpt_B)" by (simp add: scope_def cpt_B_def)
  have h4: "set [''A''] \<noteq> set (scope cpt_B)" by (auto simp: scope_def cpt_B_def)
  have e: "sum_out chain_net ''A'' (Frame cpt_B) =
       Inr \<lparr>columns = [''B'', ''prob''],
            rows = [[Str ''F'', Flt (Fin (9/10))], [Str ''T'', Flt (Fin (11/10))]]\<rparr>"
    by code_simp
  from sum_out_preserves_total [OF h1 h2 h3 h4, of chain_net] e h1 h2 h3 h4
  show ?thesis by auto
qed

subsection \<open>Columns of the tables a run builds\<close>

lemma ebind_Inr: "ebind m f = Inr y \<longleftrightarrow> (\<exists>x. m = Inr x \<and> f x = Inr y)"
  by (cases m) (simp_all add: ebind_def)

lemma dict_get_Inr: "dict_get d k = Inr v \<Longrightarrow> (k, v) \<in> set d"
  by (auto simp: dict_get_def split: option.splits dest: map_of_SomeD)

lemma set_dict_set: "set (dict_set d k v) \<subseteq> insert (k, v) (set d)"
  by (induction d) (auto split: if_splits)

lemma set_dict_del: "set (dict_del d k) \<subseteq> set d"
  by (auto simp: dict_del_def)

lemma set_fold_dict_del: "set (fold (\<lambda>f d. dict_del d f) fs d) \<subseteq> set d"
proof (induction fs arbitrary: d)
  case Nil
  then show ?case by simp
next
  case (Cons f fs)
  have "set (fold (\<lambda>f d. dict_del d f) fs (dict_del d f)) \<subseteq> set (dict_del d f)"
    by (rule Cons.IH)
  then show ?case using set_dict_del [of d f] by auto
qed

lemma columns_drop_columns:
  "columns (drop_columns df names) = filter (\<lambda>c. c \<notin> set names) (columns df)"
  by (simp add: drop_columns_def)

lemma columns_assign_column:
  "set (columns (assign_column df name vs)) = insert name (set (columns df))"
  by (auto simp: assign_column_def)

lemma columns_filter_eq: "columns (filter_eq df var value) = columns df"
  by (simp add: filter_eq_def)

lemma merge_Inr:
  "merge df1 df2 keys = Inr m \<Longrightarrow> columns m = merge_columns keys (columns df1) (columns df2)"
  by (auto simp: merge_def split: if_splits)

lemma merge_columns_subset:
  "set (merge_columns keys c1 c2) \<subseteq>
     set c1 \<union> set c2 \<union> {c @ ''_x'' | c. c \<in> set c1 \<and> c \<in> set c2 \<and> c \<notin> set keys}
       \<union> {c @ ''_y'' | c. c \<in> set c1 \<and> c \<in> set c2 \<and> c \<notin> set keys}"
  by (auto simp: merge_columns_def)

lemma common_vars_set:
  "set (common_vars df1 df2) = set (columns df1) \<inter> set (columns df2) - {''prob''}"
  by (auto simp: common_vars_def)

lemma multiplication_columns:
  assumes "multiplication net (Frame a) (Frame b) = Inr r"
  shows "set (columns r) \<subseteq> set (columns a) \<union> set (columns b) \<union> {''prob''}"
proof -
  from assms obtain m px py where
    m: "(if common_vars a b = [] then merge (with_dummy a) (with_dummy b) [''dummy'']
         else merge a b (common_vars a b)) = Inr m"
    and r: "r = (let m1 = assign_column m ''prob'' (map (\<lambda>(x, y). Flt (fl_mul x y)) (zip px py));
                    m2 = drop_columns m1 [''prob_x'', ''prob_y'']
                in if ''dummy'' \<in> set (columns m2) then drop_columns m2 [''dummy''] else m2)"
    by (auto simp: multiplication_def resolve_def ebind_Inr Let_def)
  have r_sub: "set (columns r) \<subseteq> insert ''prob'' (set (columns m)) - {''prob_x'', ''prob_y'', ''dummy''}"
    unfolding r Let_def by (auto simp: columns_drop_columns columns_assign_column)
  show ?thesis
  proof (cases "common_vars a b = []")
    case True
    then have disj: "set (columns a) \<inter> set (columns b) \<subseteq> {''prob''}"
      using common_vars_set [of a b] by auto
    from m True have cm: "columns m =
        merge_columns [''dummy''] (columns (with_dummy a)) (columns (with_dummy b))"
      by (simp add: merge_Inr)
    let ?c1 = "columns (with_dummy a)" and ?c2 = "columns (with_dummy b)"
    have s1: "set ?c1 = insert ''dummy'' (set (columns a))"
      and s2: "set ?c2 = insert ''dummy'' (set (columns b))"
      by (simp_all add: with_dummy_def columns_assign_column)
    have "x \<in> set (columns a) \<union> set (columns b) \<union> {''dummy'', ''prob_x'', ''prob_y''}"
      if "x \<in> set (columns m)" for x
    proof -
      from that cm merge_columns_subset [of "[''dummy'']" ?c1 ?c2]
      consider "x \<in> set ?c1 \<union> set ?c2"
        | c where "x = c @ ''_x''" "c \<in> set ?c1" "c \<in> set ?c2" "c \<noteq> ''dummy''"
        | c where "x = c @ ''_y''" "c \<in> set ?c1" "c \<in> set ?c2" "c \<noteq> ''dummy''"
        by auto
      then show ?thesis
      proof cases
        case 1
        then show ?thesis unfolding s1 s2 by auto
      next
        case (2 c)
        then have "c = ''prob''" using disj unfolding s1 s2 by auto
        with 2 show ?thesis by simp
      next
        case (3 c)
        then have "c = ''prob''" using disj unfolding s1 s2 by auto
        with 3 show ?thesis by simp
      qed
    qed
    then have "set (columns m) \<subseteq> set (columns a) \<union> set (columns b) \<union> {''dummy'', ''prob_x'', ''prob_y''}"
      by blast
    with r_sub show ?thesis by auto
  next
    case False
    from m False have cm: "columns m = merge_columns (common_vars a b) (columns a) (columns b)"
      by (simp add: merge_Inr)
    have "set (columns m) \<subseteq> set (columns a) \<union> set (columns b) \<union> {''prob_x'', ''prob_y''}"
      unfolding cm using merge_columns_subset [of "common_vars a b" "columns a" "columns b"]
      by (auto simp: common_vars_set)
    with r_sub show ?thesis by auto
  qed
qed

lemma float_column_present: "float_column df c = Inr ps \<Longrightarrow> c \<in> set (columns df)"
  by (simp add: float_column_Inr)

lemma groupby_sum_columns:
  assumes "groupby_sum df keys target = Inr r"
  shows "set (columns r) \<subseteq> set keys \<union> {target, ''index''}"
  using assms by (auto simp: groupby_sum_def ebind_Inr split: if_splits)

lemma sum_out_columns:
  assumes "sum_out net v (Frame f) = Inr r"
  shows "set (columns r) \<subseteq> set (columns f) \<union> {''index''}"
proof -
  let ?keys = "filter (\<lambda>col. col \<notin> set [v, ''prob'']) (columns f)"
  from assms have g: "groupby_sum f ?keys ''prob'' = Inr r"
    by (simp add: sum_out_def resolve_def ebind_def Let_def)
  then have "\<exists>ps. float_column f ''prob'' = Inr ps"
    by (auto simp: groupby_sum_def ebind_Inr split: if_splits)
  then have "''prob'' \<in> set (columns f)" by (auto dest: float_column_present)
  with groupby_sum_columns [OF g] show ?thesis by auto
qed


lemma multiply_all_columns:
  assumes "''prob'' \<in> S" and "\<forall>(k, df) \<in> set factors. set (columns df) \<subseteq> S"
  shows "set (columns combined) \<subseteq> S \<Longrightarrow> multiply_all net factors combined fs = Inr r \<Longrightarrow>
         set (columns r) \<subseteq> S"
proof (induction fs arbitrary: combined)
  case Nil
  then show ?case by simp
next
  case (Cons f fs)
  from Cons.prems(2) obtain df c' where
    df: "dict_get factors f = Inr df"
    and c': "multiplication net (Frame combined) (Frame df) = Inr c'"
    and rest: "multiply_all net factors c' fs = Inr r"
    by (auto simp: ebind_Inr)
  from dict_get_Inr [OF df] assms(2) have "set (columns df) \<subseteq> S" by auto
  with multiplication_columns [OF c'] Cons.prems(1) assms(1) have "set (columns c') \<subseteq> S"
    by auto
  from Cons.IH [OF this rest] show ?case .
qed

lemma eliminate_var_columns:
  assumes "''prob'' \<in> S" and "''index'' \<in> S"
    and "\<forall>(k, df) \<in> set factors. set (columns df) \<subseteq> S"
    and "eliminate_var net var factors = Inr factors'"
  shows "\<forall>(k, df) \<in> set factors'. set (columns df) \<subseteq> S"
proof (cases "related_factors factors var")
  case Nil
  with assms(3,4) show ?thesis by (simp add: eliminate_var_def)
next
  case (Cons f0 fs)
  with assms(4) obtain df0 combined reduced where
    df0: "dict_get factors f0 = Inr df0"
    and combined: "multiply_all net factors df0 fs = Inr combined"
    and reduced: "sum_out net var (Frame combined) = Inr reduced"
    and f': "factors' = dict_set (fold (\<lambda>f d. dict_del d f) (f0 # fs) factors)
                          (''reduced_'' @ var) reduced"
    by (auto simp: eliminate_var_def ebind_Inr)
  from dict_get_Inr [OF df0] assms(3) have "set (columns df0) \<subseteq> S" by auto
  from multiply_all_columns [OF assms(1,3) this combined] have "set (columns combined) \<subseteq> S" .
  with sum_out_columns [OF reduced] assms(2) have red: "set (columns reduced) \<subseteq> S" by auto
  define key where "key = ''reduced_'' @ var"
  have sub: "set factors' \<subseteq> insert (key, reduced) (set factors)"
    unfolding f' key_def [symmetric] using set_dict_set set_fold_dict_del by fast
  have "set (columns df) \<subseteq> S" if "(k, df) \<in> set factors'" for k df
  proof -
    from that sub have "(k, df) = (key, reduced) \<or> (k, df) \<in> set factors" by auto
    with red assms(3) show ?thesis by auto
  qed
  then show ?thesis by auto
qed

lemma eliminate_all_columns:
  assumes "''prob'' \<in> S" and "''index'' \<in> S"
  shows "\<forall>(k, df) \<in> set factors. set (columns df) \<subseteq> S \<Longrightarrow>
         eliminate_all net vars factors = Inr factors' \<Longrightarrow>
         \<forall>(k, df) \<in> set factors'. set (columns df) \<subseteq> S"
proof (induction vars arbitrary: factors)
  case Nil
  then show ?case by simp
next
  case (Cons var vars)
  from Cons.prems(2) obtain f1 where
    f1: "eliminate_var net var factors = Inr f1" and rest: "eliminate_all net vars f1 = Inr factors'"
    by (auto simp: ebind_Inr)
  from eliminate_var_columns [OF assms Cons.prems(1) f1]
  have "\<forall>(k, df) \<in> set f1. set (columns df) \<subseteq> S" .
  from Cons.IH [OF this rest] show ?case .
qed

lemma multiply_remaining_columns:
  assumes "''prob'' \<in> S"
  shows "\<forall>f \<in> set fs. set (columns f) \<subseteq> S \<Longrightarrow>
         \<forall>f. acc = Some f \<longrightarrow> set (columns f) \<subseteq> S \<Longrightarrow>
         multiply_remaining net acc fs = Inr (Some r) \<Longrightarrow> set (columns r) \<subseteq> S"
proof (induction fs arbitrary: acc)
  case Nil
  then show ?case by simp
next
  case (Cons f fs)
  show ?case
  proof (cases acc)
    case None
    with Cons.prems(3) have rest: "multiply_remaining net (Some f) fs = Inr (Some r)" by simp
    show ?thesis
      by (rule Cons.IH [OF _ _ rest]) (use Cons.prems(1) in auto)
  next
    case (Some final_factor)
    with Cons.prems(3) obtain p where
      p: "multiplication net (Frame final_factor) (Frame f) = Inr p"
      and rest: "multiply_remaining net (Some p) fs = Inr (Some r)"
      by (auto simp: ebind_Inr)
    from multiplication_columns [OF p] Cons.prems(1,2) Some assms
    have "set (columns p) \<subseteq> S" by auto
    then show ?thesis
      by (intro Cons.IH [OF _ _ rest]) (use Cons.prems(1) in auto)
  qed
qed

lemma remove_extra_columns:
  assumes "''index'' \<in> S"
  shows "set (columns f) \<subseteq> S \<Longrightarrow> remove_extra net observed vars f = Inr r \<Longrightarrow>
         set (columns r) \<subseteq> S"
proof (induction vars arbitrary: f)
  case Nil
  then show ?case by simp
next
  case (Cons var vars)
  show ?case
  proof (cases "map_of observed var")
    case None
    with Cons.prems(2) obtain g where
      g: "sum_out net var (Frame f) = Inr g" and rest: "remove_extra net observed vars g = Inr r"
      by (auto simp: ebind_Inr)
    from sum_out_columns [OF g] Cons.prems(1) assms have "set (columns g) \<subseteq> S" by auto
    from Cons.IH [OF this rest] show ?thesis .
  next
    case (Some x)
    let ?g = "drop_columns (filter_eq f var x) [var]"
    from Some Cons.prems(2) have rest: "remove_extra net observed vars ?g = Inr r" by simp
    have "set (columns ?g) \<subseteq> S"
      using Cons.prems(1) by (auto simp: columns_drop_columns columns_filter_eq)
    from Cons.IH [OF this rest] show ?thesis .
  qed
qed



lemma normalize_columns: "normalize f = Inr t \<Longrightarrow> columns t = columns f"
  by (auto simp: normalize_def ebind_Inr assign_column_def dest: float_column_present)

lemma final_factor_columns:
  assumes "''prob'' \<in> S" and "''index'' \<in> S"
    and "\<forall>(k, df) \<in> set (probabilities (simplification net observed)). set (columns df) \<subseteq> S"
    and "final_factor_of net q observed h rng = Inr f"
  shows "set (columns f) \<subseteq> S"
proof -
  let ?N = "simplification net observed"
  from assms(4) obtain order factors f0 where
    el: "eliminate_all ?N (filter (\<lambda>var. var \<noteq> q) order) (probabilities ?N) = Inr factors"
    and mr: "multiply_remaining ?N None (map snd factors) = Inr (Some f0)"
    and re: "remove_extra ?N observed
               (filter (\<lambda>col. col \<notin> set [q, ''prob'']) (columns f0)) f0 = Inr f"
    by (auto simp: final_factor_of_def Let_def ebind_Inr split: option.splits)
  from eliminate_all_columns [OF assms(1,2,3) el]
  have "\<forall>(k, df) \<in> set factors. set (columns df) \<subseteq> S" .
  then have "\<forall>f \<in> set (map snd factors). set (columns f) \<subseteq> S" by fastforce
  from multiply_remaining_columns [OF assms(1) this _ mr] have "set (columns f0) \<subseteq> S" by simp
  from remove_extra_columns [OF assms(2) this re] show ?thesis .
qed

subsection \<open>Querying an observed variable\<close>

text \<open>
  Evidence incorporation removes the column of every evidence variable from every table,
  the query's too when the query is observed, and no later step brings a column back. The
  labels \<^verbatim>\<open>prob\<close> and \<^verbatim>\<open>index\<close> are set aside: the first is the value column, the
  second is the label pandas gives when an empty table is grouped by no column.
\<close>

lemma observed_query_column_removed:
  assumes "distinct (map fst (probabilities net))" and "q \<in> fst ` set observed"
    and "q \<noteq> ''prob''" and "q \<noteq> ''index''"
    and "fst (run net q observed h rng) = Inr t"
  shows "q \<notin> set (columns t)"
proof -
  from assms(5) obtain f where
    f: "final_factor_of net q observed h rng = Inr f" and t: "normalize f = Inr t"
    by (auto simp: fst_run ebind_Inr)
  have P: "probabilities (simplification net observed) =
        map (\<lambda>(k, df). (k, reduce_all observed df)) (probabilities net)"
    using assms(1) by (simp add: simplification_def simplification_items_map)
  have "\<And>df. q \<notin> set (columns (reduce_all observed df))"
    using assms(2) by (simp add: columns_reduce_all)
  then have "\<forall>(k, df) \<in> set (probabilities (simplification net observed)).
          set (columns df) \<subseteq> UNIV - {q}"
    unfolding P by auto
  from final_factor_columns [OF _ _ this f] assms(3,4) have "set (columns f) \<subseteq> UNIV - {q}"
    by simp
  then show ?thesis using normalize_columns [OF t] by auto
qed

text \<open>
  On a network of the one node \<open>q\<close>, whose table has the columns \<open>q\<close> and \<^verbatim>\<open>prob\<close>,
  evidence on \<open>q\<close> leaves nothing to eliminate: the result is the normalised table of the
  rows that agree with the evidence, without the column \<open>q\<close>.
\<close>

lemma elimination_loop_Nil: "elimination_loop net h rng [] order = Inr order"
  by (simp add: elimination_loop.simps [of _ _ _ "[]"])

lemma run_single_node:
  assumes n: "nodes net = [q]" and p: "probabilities net = [(q, F)]"
    and c: "columns F = [q, ''prob'']" and qp: "q \<noteq> ''prob''"
  shows "fst (run net q [(q, x)] h rng) =
         normalize \<lparr>columns = [''prob''],
                    rows = map (drop_cells [q] [q, ''prob'']) (rows (filter_eq F q x))\<rparr>"
proof -
  let ?R = "\<lparr>columns = [''prob''],
             rows = map (drop_cells [q] [q, ''prob'']) (rows (filter_eq F q x))\<rparr>"
  let ?N = "simplification net [(q, x)]"
  have R: "reduce_evidence q x F = ?R"
    using c qp by (simp add: reduce_evidence_def drop_columns_def filter_eq_def)
  have P: "probabilities ?N = [(q, ?R)]"
    using c by (simp add: simplification_def p R [symmetric])
  have N: "nodes ?N = [q]" by (simp add: simplification_def n)
  have o: "elimination_order ?N h rng [(q, x)] = Inr []"
    by (simp add: elimination_order_def N elimination_loop_Nil)
  have "final_factor_of net q [(q, x)] h rng = Inr ?R"
    using qp by (simp add: final_factor_of_def Let_def o P ebind_def)
  then show ?thesis by (simp add: fst_run ebind_def)
qed

lemma normalize_single:
  "normalize \<lparr>columns = [''prob''], rows = [[Flt (Fin p)]]\<rparr> =
   Inr \<lparr>columns = [''prob''], rows = [[Flt (if p = 0 then NaN else Fin 1)]]\<rparr>"
  by (simp add: normalize_def float_column_def get_cell_def ebind_def series_sum_def
      assign_column_def assign_cell_def)

lemma normalize_no_rows:
  "normalize \<lparr>columns = [''prob''], rows = []\<rparr> = Inr \<lparr>columns = [''prob''], rows = []\<rparr>"
  by (simp add: normalize_def float_column_def ebind_def assign_column_def)

text \<open>
  C8 as the code has it. Let the query \<open>q\<close> be observed with the value \<open>x\<close>, the keys of
  the network's tables be distinct, and \<open>q\<close> be neither \<^verbatim>\<open>prob\<close> nor \<^verbatim>\<open>index\<close>. Then

  \<^item> no table that \<open>run\<close> returns has a column \<open>q\<close>, so the result is never a table over
    the query and \<^verbatim>\<open>prob\<close>;
  \<^item> on a network of the one node \<open>q\<close> with a table over \<open>q\<close> and \<^verbatim>\<open>prob\<close> that has
    exactly one row with \<open>q = x\<close>, of probability \<open>p\<close>, the result is the one-row table
    over \<^verbatim>\<open>prob\<close> alone, holding 1.0 when \<open>p \<noteq> 0\<close> and NaN when \<open>p = 0\<close>;
  \<^item> on such a network whose table has no row with \<open>q = x\<close>, the result is the table
    over \<^verbatim>\<open>prob\<close> alone with no row.
\<close>

theorem query_as_evidence_result:
  assumes "distinct (map fst (probabilities net))" and "q \<noteq> ''prob''" and "q \<noteq> ''index''"
  shows "(\<forall>t. fst (run net q [(q, x)] h rng) = Inr t \<longrightarrow> q \<notin> set (columns t))
     \<and> (\<forall>F p. nodes net = [q] \<and> probabilities net = [(q, F)] \<and> columns F = [q, ''prob''] \<and>
            rows (filter_eq F q x) = [[Str x, Flt (Fin p)]] \<longrightarrow>
          fst (run net q [(q, x)] h rng) =
            Inr \<lparr>columns = [''prob''], rows = [[Flt (if p = 0 then NaN else Fin 1)]]\<rparr>)
     \<and> (\<forall>F. nodes net = [q] \<and> probabilities net = [(q, F)] \<and> columns F = [q, ''prob''] \<and>
            rows (filter_eq F q x) = [] \<longrightarrow>
          fst (run net q [(q, x)] h rng) = Inr \<lparr>columns = [''prob''], rows = []\<rparr>)"
proof (intro conjI allI impI)
  fix t assume "fst (run net q [(q, x)] h rng) = Inr t"
  with assms show "q \<notin> set (columns t)"
    by (intro observed_query_column_removed [of net q "[(q, x)]" h rng t]) simp_all
next
  fix F p
  assume a: "nodes net = [q] \<and> probabilities net = [(q, F)] \<and> columns F = [q, ''prob''] \<and>
            rows (filter_eq F q x) = [[Str x, Flt (Fin p)]]"
  then have "fst (run net q [(q, x)] h rng) =
      normalize \<lparr>columns = [''prob''], rows = map (drop_cells [q] [q, ''prob'']) [[Str x, Flt (Fin p)]]\<rparr>"
    using run_single_node [of net q F x h rng] assms(2) by simp
  then show "fst (run net q [(q, x)] h rng) =
            Inr \<lparr>columns = [''prob''], rows = [[Flt (if p = 0 then NaN else Fin 1)]]\<rparr>"
    using assms(2) by (simp add: drop_cells_def normalize_single)
next
  fix F
  assume a: "nodes net = [q] \<and> probabilities net = [(q, F)] \<and> columns F = [q, ''prob''] \<and>
            rows (filter_eq F q x) = []"
  then show "fst (run net q [(q, x)] h rng) = Inr \<lparr>columns = [''prob''], rows = []\<rparr>"
    using run_single_node [of net q F x h rng] assms(2) by (simp add: normalize_no_rows)
qed

theorem query_as_evidence_witness:
  "distinct (map fst (probabilities single_net)) \<and> ''A'' \<noteq> ''prob'' \<and> ''A'' \<noteq> ''index''
   \<and> nodes single_net = [''A''] \<and> probabilities single_net = [(''A'', cpt_A)]
   \<and> columns cpt_A = [''A'', ''prob'']
   \<and> rows (filter_eq cpt_A ''A'' ''T'') = [[Str ''T'', Flt (Fin (3/10))]]
   \<and> fst (run single_net ''A'' [(''A'', ''T'')] (Named ''min-weight'') (\<lambda>_. 0)) =
       Inr \<lparr>columns = [''prob''], rows = [[Flt (Fin 1)]]\<rparr>
   \<and> ''A'' \<notin> set (columns \<lparr>columns = [''prob''], rows = [[Flt (Fin 1)]]\<rparr>)"
proof -
  have h1: "distinct (map fst (probabilities single_net))" by (simp add: single_net_def)
  have h2: "''A'' \<noteq> ''prob''" and h3: "''A'' \<noteq> ''index''" by simp_all
  have s: "nodes single_net = [''A''] \<and> probabilities single_net = [(''A'', cpt_A)] \<and>
           columns cpt_A = [''A'', ''prob''] \<and>
           rows (filter_eq cpt_A ''A'' ''T'') = [[Str ''T'', Flt (Fin (3/10))]]"
    by (simp add: single_net_def cpt_A_def filter_eq_def get_cell_def)
  have r: "fst (run single_net ''A'' [(''A'', ''T'')] (Named ''min-weight'') (\<lambda>_. 0)) =
       Inr \<lparr>columns = [''prob''], rows = [[Flt (Fin 1)]]\<rparr>"
    using query_as_evidence_result [OF h1 h2 h3, of "''T''" "Named ''min-weight''" "\<lambda>_. 0",
        THEN conjunct2, THEN conjunct1, rule_format, of cpt_A "3/10", OF s]
    by simp
  with h1 s r show ?thesis by simp
qed

text \<open>
  C8 (the claim fails on the code). The claim: with query \<open>q\<close> and evidence \<open>q = x\<close> the
  result is the table over \<open>q\<close> and \<^verbatim>\<open>prob\<close> with 1.0 at \<open>x\<close>. On the network of the single
  node \<open>A\<close> the result has the one column \<^verbatim>\<open>prob\<close>, holding 1; on the chain the call
  raises ValueError, from summing out \<open>B\<close> of a table over \<open>B\<close> alone.
\<close>

theorem query_in_evidence_no_point_mass:
  "fst (run single_net ''A'' [(''A'', ''T'')] (Named ''min-weight'') (\<lambda>_. 0)) =
     Inr \<lparr>columns = [''prob''], rows = [[Flt (Fin 1)]]\<rparr>
   \<and> fst (run chain_net ''A'' [(''A'', ''T'')] (Named ''min-weight'') (\<lambda>_. 0)) = Inl ValueError"
  by code_simp


subsection \<open>Evidence on a variable the network does not have\<close>










subsection \<open>The product of two factors\<close>

lemma zip_filter_fst:
  "length r = length cs \<Longrightarrow>
   zip (filter P cs) (map snd (filter (\<lambda>(c, x). P c) (zip cs r))) = filter (\<lambda>(c, x). P c) (zip cs r)"
proof (induction cs arbitrary: r)
  case Nil
  then show ?case by simp
next
  case (Cons c cs)
  then show ?case by (cases r) auto
qed

lemma map_fst_filter_zip:
  "length r = length cs \<Longrightarrow> map fst (filter (\<lambda>(c, x). P c) (zip cs r)) = filter P cs"
proof (induction cs arbitrary: r)
  case Nil
  then show ?case by simp
next
  case (Cons c cs)
  then show ?case by (cases r) auto
qed

lemma length_drop_cells:
  "length r = length cs \<Longrightarrow>
   length (drop_cells names cs r) = length (filter (\<lambda>c. c \<notin> set names) cs)"
proof -
  assume len: "length r = length cs"
  have "length (drop_cells names cs r) =
        length (map fst (filter (\<lambda>(c, x). c \<notin> set names) (zip cs r)))"
    by (simp add: drop_cells_def)
  then show ?thesis by (simp only: map_fst_filter_zip [OF len])
qed

lemma zip_drop_cells:
  "length r = length cs \<Longrightarrow>
   zip (filter (\<lambda>c. c \<notin> set names) cs) (drop_cells names cs r) =
   filter (\<lambda>(c, x). c \<notin> set names) (zip cs r)"
  unfolding drop_cells_def by (rule zip_filter_fst)

lemma cell_at_zip:
  assumes "distinct cs" and "length r = length cs"
  shows "map (cell_at cs r) (filter P cs) = map snd (filter (\<lambda>(c, x). P c) (zip cs r))"
proof -
  have "map (cell_at cs r) (map fst zs) = map snd zs" if "set zs \<subseteq> set (zip cs r)" for zs
  proof (rule nth_equalityI)
    show "length (map (cell_at cs r) (map fst zs)) = length (map snd zs)" by simp
  next
    fix i assume "i < length (map (cell_at cs r) (map fst zs))"
    then have i: "i < length zs" by simp
    obtain c x where cx: "zs ! i = (c, x)" by (cases "zs ! i")
    with i that have "(c, x) \<in> set (zip cs r)" by (metis nth_mem subsetD)
    then have "get_cell cs r c = Some x"
      using assms by (simp add: get_cell_def map_of_eq_Some_iff)
    then show "map (cell_at cs r) (map fst zs) ! i = map snd zs ! i"
      using i cx by (simp add: cell_at_def)
  qed
  from this [of "filter (\<lambda>(c, x). P c) (zip cs r)"] show ?thesis
    by (simp add: map_fst_filter_zip [OF assms(2)])
qed

lemma merge_rows_pairs:
  "merge_rows keys df1 df2 =
   map (\<lambda>(l, r). l @ drop_cells keys (columns df2) r) (matched_pairs keys df1 df2)"
  by (simp add: merge_rows_def matched_pairs_def map_concat comp_def)

lemma matched_pairs_set:
  "(l, r) \<in> set (matched_pairs keys df1 df2) \<Longrightarrow> l \<in> set (rows df1) \<and> r \<in> set (rows df2)"
  by (auto simp: matched_pairs_def)

lemma map_of_renamed:
  "n \<notin> fst ` set zs \<Longrightarrow>
   map_of (map (\<lambda>(c, x). (if c = p then n else c, x)) zs) n = map_of zs p"
  by (induction zs) auto

lemma map_of_renamed_other:
  "k \<noteq> n \<Longrightarrow> k \<notin> fst ` set zs \<Longrightarrow>
   map_of (map (\<lambda>(c, x). (if c = p then n else c, x)) zs) k = None"
  by (induction zs) (auto split: if_splits)

lemma map_of_filter_keep:
  "P k \<Longrightarrow> map_of (filter (\<lambda>(c, x). P c) zs) k = map_of zs k"
  by (induction zs) auto


lemma filter_renamed_columns:
  "''prob_x'' \<notin> set cs \<Longrightarrow> ''prob_y'' \<notin> set cs \<Longrightarrow> n \<in> {''prob_x'', ''prob_y''} \<Longrightarrow>
   filter (\<lambda>c. c \<notin> set [''prob_x'', ''prob_y'']) (map (\<lambda>c. if c = ''prob'' then n else c) cs) =
   filter (\<lambda>c. c \<noteq> ''prob'') cs"
  by (induction cs) auto

lemma filter_renamed_cells:
  "''prob_x'' \<notin> fst ` set zs \<Longrightarrow> ''prob_y'' \<notin> fst ` set zs \<Longrightarrow> n \<in> {''prob_x'', ''prob_y''} \<Longrightarrow>
   map snd (filter (\<lambda>(c, x). c \<notin> set [''prob_x'', ''prob_y''])
     (map (\<lambda>(c, x). (if c = ''prob'' then n else c, x)) zs)) =
   map snd (filter (\<lambda>(c, x). c \<noteq> ''prob'') zs)"
  by (induction zs) auto

lemma merged_row_zip:
  assumes "length l = length c1" and "length r = length c2"
  shows "zip (map f c1 @ map g (filter (\<lambda>c. c \<notin> set keys) c2)) (l @ drop_cells keys c2 r) =
         map (\<lambda>(c, x). (f c, x)) (zip c1 l) @
         map (\<lambda>(c, x). (g c, x)) (filter (\<lambda>(c, x). c \<notin> set keys) (zip c2 r))"
proof -
  have "zip (map f c1 @ map g (filter (\<lambda>c. c \<notin> set keys) c2)) (l @ drop_cells keys c2 r) =
        zip (map f c1) l @ zip (map g (filter (\<lambda>c. c \<notin> set keys) c2)) (drop_cells keys c2 r)"
    using assms(1) by simp
  also have "zip (map f c1) l = map (\<lambda>(c, x). (f c, x)) (zip c1 l)"
    by (simp add: zip_map1)
  also have "zip (map g (filter (\<lambda>c. c \<notin> set keys) c2)) (drop_cells keys c2 r) =
             map (\<lambda>(c, x). (g c, x)) (filter (\<lambda>(c, x). c \<notin> set keys) (zip c2 r))"
    by (simp add: zip_map1 zip_drop_cells [OF assms(2)])
  finally show ?thesis .
qed

lemma prob_of_Some: "get_cell cs r ''prob'' = Some (Flt p) \<Longrightarrow> prob_of cs r = p"
  by (simp add: prob_of_def)

lemma product_core_eq:
  fixes df1 df2 :: dataframe and keys :: "string list"
  defines "c1 \<equiv> columns df1" and "c2 \<equiv> columns df2"
  assumes d1: "distinct c1" and d2: "distinct c2"
    and l1: "\<forall>l \<in> set (rows df1). length l = length c1"
    and l2: "\<forall>r \<in> set (rows df2). length r = length c2"
    and k: "set keys \<subseteq> set c1 \<inter> set c2"
    and i: "set c1 \<inter> set c2 \<subseteq> insert ''prob'' (set keys)"
    and p1: "''prob'' \<in> set c1" and p2: "''prob'' \<in> set c2" and pk: "''prob'' \<notin> set keys"
    and x1: "''prob_x'' \<notin> set c1" and x2: "''prob_x'' \<notin> set c2"
    and y1: "''prob_y'' \<notin> set c1" and y2: "''prob_y'' \<notin> set c2"
    and f1: "\<forall>l \<in> set (rows df1). \<exists>p. get_cell c1 l ''prob'' = Some (Flt p)"
    and f2: "\<forall>r \<in> set (rows df2). \<exists>p. get_cell c2 r ''prob'' = Some (Flt p)"
  shows "product_core keys df1 df2 =
     Inr \<lparr>columns = filter (\<lambda>c. c \<noteq> ''prob'') c1 @
                    filter (\<lambda>c. c \<notin> set keys \<and> c \<noteq> ''prob'') c2 @ [''prob''],
          rows = map (\<lambda>(l, r).
                   map snd (filter (\<lambda>(c, x). c \<noteq> ''prob'') (zip c1 l)) @
                   map snd (filter (\<lambda>(c, x). c \<notin> set keys \<and> c \<noteq> ''prob'') (zip c2 r)) @
                   [Flt (fl_mul (prob_of c1 l) (prob_of c2 r))])
                 (matched_pairs keys df1 df2)\<rparr>"
proof -
  define rx where "rx = (\<lambda>c. if c = ''prob'' then ''prob_x'' else c)"
  define ry where "ry = (\<lambda>c. if c = ''prob'' then ''prob_y'' else c)"
  define c2' where "c2' = filter (\<lambda>c. c \<notin> set keys) c2"
  define CM where "CM = map rx c1 @ map ry c2'"
  define pairs where "pairs = matched_pairs keys df1 df2"
  define J where "J = (\<lambda>(l, r). l @ drop_cells keys c2 r)"
  have cm: "merge_columns keys c1 c2 = CM"
  proof -
    have "map (\<lambda>c. if c \<notin> set keys \<and> c \<in> set c2 then c @ ''_x'' else c) c1 = map rx c1"
      by (rule map_cong [OF refl]) (use i pk p2 in \<open>auto simp: rx_def\<close>)
    moreover have "map (\<lambda>c. if c \<in> set c1 then c @ ''_y'' else c) c2' = map ry c2'"
      by (rule map_cong [OF refl]) (use i pk p1 in \<open>auto simp: ry_def c2'_def\<close>)
    ultimately show ?thesis by (simp add: merge_columns_def CM_def c2'_def)
  qed
  define m where "m = \<lparr>columns = CM, rows = map J pairs\<rparr>"
  have mg: "merge df1 df2 keys = Inr m"
    using k by (simp add: merge_def m_def cm [unfolded c1_def c2_def] merge_rows_pairs
        pairs_def J_def c1_def c2_def)
  have Z: "zip CM (J (l, r)) = map (\<lambda>(c, x). (rx c, x)) (zip c1 l) @
             map (\<lambda>(c, x). (ry c, x)) (filter (\<lambda>(c, x). c \<notin> set keys) (zip c2 r))"
    if "(l, r) \<in> set pairs" for l r
  proof -
    from that have "l \<in> set (rows df1)" "r \<in> set (rows df2)"
      unfolding pairs_def by (auto dest: matched_pairs_set)
    with l1 l2 have "length l = length c1" "length r = length c2" by auto
    then show ?thesis unfolding CM_def c2'_def J_def prod.case by (rule merged_row_zip)
  qed
  have gx: "get_cell CM (J (l, r)) ''prob_x'' = Some (Flt (prob_of c1 l))"
    and gy: "get_cell CM (J (l, r)) ''prob_y'' = Some (Flt (prob_of c2 r))"
    if lr: "(l, r) \<in> set pairs" for l r
  proof -
    from lr have lin: "l \<in> set (rows df1)" and rin: "r \<in> set (rows df2)"
      unfolding pairs_def by (auto dest: matched_pairs_set)
    from f1 lin obtain pa where pa: "get_cell c1 l ''prob'' = Some (Flt pa)" by blast
    from f2 rin obtain pb where pb: "get_cell c2 r ''prob'' = Some (Flt pb)" by blast
    have nx: "''prob_x'' \<notin> fst ` set (zip c1 l)" using x1 by (auto dest: set_zip_leftD)
    have ny1: "''prob_y'' \<notin> fst ` set (zip c1 l)" using y1 by (auto dest: set_zip_leftD)
    have ny2: "''prob_y'' \<notin> fst ` set (filter (\<lambda>(c, x). c \<notin> set keys) (zip c2 r))"
      using y2 by (auto dest: set_zip_leftD)
    have a: "map_of (map (\<lambda>(c, x). (rx c, x)) (zip c1 l)) ''prob_x'' = Some (Flt pa)"
      unfolding rx_def using map_of_renamed [OF nx, of "''prob''"] pa by (simp add: get_cell_def)
    have b: "map_of (map (\<lambda>(c, x). (rx c, x)) (zip c1 l)) ''prob_y'' = None"
      unfolding rx_def by (rule map_of_renamed_other [OF _ ny1]) simp
    have "map_of (filter (\<lambda>(c, x). c \<notin> set keys) (zip c2 r)) ''prob'' = Some (Flt pb)"
      using map_of_filter_keep [of "\<lambda>c. c \<notin> set keys" "''prob''" "zip c2 r"] pk pb
      by (simp add: get_cell_def)
    then have c: "map_of (map (\<lambda>(c, x). (ry c, x)) (filter (\<lambda>(c, x). c \<notin> set keys) (zip c2 r)))
                   ''prob_y'' = Some (Flt pb)"
      unfolding ry_def using map_of_renamed [OF ny2, of "''prob''"] by simp
    show "get_cell CM (J (l, r)) ''prob_x'' = Some (Flt (prob_of c1 l))"
      unfolding get_cell_def Z [OF lr] using a pa by (simp add: map_add_def prob_of_Some)
    show "get_cell CM (J (l, r)) ''prob_y'' = Some (Flt (prob_of c2 r))"
      unfolding get_cell_def Z [OF lr] using b c pb by (simp add: map_add_def prob_of_Some)
  qed
  have inCM: "''prob_x'' \<in> set CM" "''prob_y'' \<in> set CM"
  proof -
    have "rx ''prob'' \<in> set (map rx c1)" using p1 by simp
    then show "''prob_x'' \<in> set CM" by (simp add: CM_def rx_def)
    have "''prob'' \<in> set c2'" using p2 pk by (simp add: c2'_def)
    then have "ry ''prob'' \<in> set (map ry c2')" by simp
    then show "''prob_y'' \<in> set CM" by (simp add: CM_def ry_def)
  qed
  have px: "float_column m ''prob_x'' = Inr (map (\<lambda>(l, r). prob_of c1 l) pairs)"
    unfolding float_column_Inr m_def using inCM(1) gx by (auto simp: comp_def)
  have py: "float_column m ''prob_y'' = Inr (map (\<lambda>(l, r). prob_of c2 r) pairs)"
    unfolding float_column_Inr m_def using inCM(2) gy by (auto simp: comp_def)
  define F where "F = (\<lambda>(l, r). Flt (fl_mul (prob_of c1 l) (prob_of c2 r)))"
  have zp: "map (\<lambda>(x, y). Flt (fl_mul x y))
              (zip (map (\<lambda>(l, r). prob_of c1 l) pairs) (map (\<lambda>(l, r). prob_of c2 r) pairs)) =
            map F pairs"
    by (simp add: zip_map_map zip_same_conv_map F_def case_prod_unfold)
  have npm: "''prob'' \<notin> set CM"
    by (auto simp: CM_def rx_def ry_def split: if_splits)
  have m1: "assign_column m ''prob'' (map F pairs) =
            \<lparr>columns = CM @ [''prob''], rows = map (\<lambda>lr. J lr @ [F lr]) pairs\<rparr>"
    using npm
    by (simp add: assign_column_def m_def assign_cell_def zip_map_map zip_same_conv_map)
  have lenJ: "length (J (l, r)) = length CM" if "(l, r) \<in> set pairs" for l r
  proof -
    from that have "l \<in> set (rows df1)" "r \<in> set (rows df2)"
      unfolding pairs_def by (auto dest: matched_pairs_set)
    with l1 l2 have "length l = length c1" "length r = length c2" by auto
    then show ?thesis by (simp add: J_def CM_def c2'_def length_drop_cells)
  qed
  have cols: "filter (\<lambda>c. c \<notin> set [''prob_x'', ''prob_y'']) (CM @ [''prob'']) =
              filter (\<lambda>c. c \<noteq> ''prob'') c1 @
              filter (\<lambda>c. c \<notin> set keys \<and> c \<noteq> ''prob'') c2 @ [''prob'']"
  proof -
    have a: "filter (\<lambda>c. c \<notin> set [''prob_x'', ''prob_y'']) (map rx c1) =
             filter (\<lambda>c. c \<noteq> ''prob'') c1"
      unfolding rx_def by (rule filter_renamed_columns [OF x1 y1]) simp
    have "''prob_x'' \<notin> set c2'" "''prob_y'' \<notin> set c2'" using x2 y2 by (simp_all add: c2'_def)
    then have "filter (\<lambda>c. c \<notin> set [''prob_x'', ''prob_y'']) (map ry c2') =
               filter (\<lambda>c. c \<noteq> ''prob'') c2'"
      unfolding ry_def by (rule filter_renamed_columns) simp
    then have b: "filter (\<lambda>c. c \<notin> set [''prob_x'', ''prob_y'']) (map ry c2') =
               filter (\<lambda>c. c \<notin> set keys \<and> c \<noteq> ''prob'') c2"
      by (simp add: c2'_def)
    show ?thesis unfolding CM_def filter_append a b by simp
  qed
  have row: "drop_cells [''prob_x'', ''prob_y''] (CM @ [''prob'']) (J (l, r) @ [F (l, r)]) =
             map snd (filter (\<lambda>(c, x). c \<noteq> ''prob'') (zip c1 l)) @
             map snd (filter (\<lambda>(c, x). c \<notin> set keys \<and> c \<noteq> ''prob'') (zip c2 r)) @
             [Flt (fl_mul (prob_of c1 l) (prob_of c2 r))]"
    if lr: "(l, r) \<in> set pairs" for l r
  proof -
    have nx1: "''prob_x'' \<notin> fst ` set (zip c1 l)" and ny1: "''prob_y'' \<notin> fst ` set (zip c1 l)"
      using x1 y1 by (auto dest: set_zip_leftD)
    let ?z2 = "filter (\<lambda>(c, x). c \<notin> set keys) (zip c2 r)"
    have nx2: "''prob_x'' \<notin> fst ` set ?z2" and ny2: "''prob_y'' \<notin> fst ` set ?z2"
      using x2 y2 by (auto dest: set_zip_leftD)
    have a: "map snd (filter (\<lambda>(c, x). c \<notin> set [''prob_x'', ''prob_y''])
               (map (\<lambda>(c, x). (rx c, x)) (zip c1 l))) =
             map snd (filter (\<lambda>(c, x). c \<noteq> ''prob'') (zip c1 l))"
      unfolding rx_def by (rule filter_renamed_cells [OF nx1 ny1]) simp
    have "map snd (filter (\<lambda>(c, x). c \<notin> set [''prob_x'', ''prob_y''])
               (map (\<lambda>(c, x). (ry c, x)) ?z2)) =
             map snd (filter (\<lambda>(c, x). c \<noteq> ''prob'') ?z2)"
      unfolding ry_def by (rule filter_renamed_cells [OF nx2 ny2]) simp
    also have "filter (\<lambda>(c, x). c \<noteq> ''prob'') ?z2 =
               filter (\<lambda>(c, x). c \<notin> set keys \<and> c \<noteq> ''prob'') (zip c2 r)"
      by (simp add: case_prod_unfold)
    finally have b: "map snd (filter (\<lambda>(c, x). c \<notin> set [''prob_x'', ''prob_y''])
               (map (\<lambda>(c, x). (ry c, x)) ?z2)) =
             map snd (filter (\<lambda>(c, x). c \<notin> set keys \<and> c \<noteq> ''prob'') (zip c2 r))" .
    have "zip (CM @ [''prob'']) (J (l, r) @ [F (l, r)]) = zip CM (J (l, r)) @ [(''prob'', F (l, r))]"
      using lenJ [OF lr] by simp
    then have "drop_cells [''prob_x'', ''prob_y''] (CM @ [''prob'']) (J (l, r) @ [F (l, r)]) =
               map snd (filter (\<lambda>(c, x). c \<notin> set [''prob_x'', ''prob_y''])
                 (map (\<lambda>(c, x). (rx c, x)) (zip c1 l))) @
               map snd (filter (\<lambda>(c, x). c \<notin> set [''prob_x'', ''prob_y''])
                 (map (\<lambda>(c, x). (ry c, x)) ?z2)) @ [F (l, r)]"
      unfolding drop_cells_def by (simp add: Z [OF lr])
    then show ?thesis unfolding a b by (simp add: F_def)
  qed
  have "product_core keys df1 df2 =
        Inr (drop_columns (assign_column m ''prob'' (map F pairs)) [''prob_x'', ''prob_y''])"
    by (simp add: product_core_def mg px py ebind_def zp)
  also have "drop_columns (assign_column m ''prob'' (map F pairs)) [''prob_x'', ''prob_y''] =
        \<lparr>columns = filter (\<lambda>c. c \<noteq> ''prob'') c1 @
                    filter (\<lambda>c. c \<notin> set keys \<and> c \<noteq> ''prob'') c2 @ [''prob''],
          rows = map (\<lambda>(l, r).
                   map snd (filter (\<lambda>(c, x). c \<noteq> ''prob'') (zip c1 l)) @
                   map snd (filter (\<lambda>(c, x). c \<notin> set keys \<and> c \<noteq> ''prob'') (zip c2 r)) @
                   [Flt (fl_mul (prob_of c1 l) (prob_of c2 r))])
                 pairs\<rparr>"
    unfolding m1 drop_columns_def using cols row by (auto simp: comp_def)
  finally show ?thesis unfolding pairs_def .
qed


lemma ebind_assoc: "ebind (ebind m f) g = ebind m (\<lambda>x. ebind (f x) g)"
  by (cases m) (simp_all add: ebind_def)

lemma multiplication_core:
  "multiplication net (Frame A) (Frame B) =
   ebind (if common_vars A B = [] then product_core [''dummy''] (with_dummy A) (with_dummy B)
          else product_core (common_vars A B) A B)
     (\<lambda>m. Inr (if ''dummy'' \<in> set (columns m) then drop_columns m [''dummy''] else m))"
proof -
  have "multiplication net (Frame A) (Frame B) =
        ebind (if common_vars A B = [] then merge (with_dummy A) (with_dummy B) [''dummy'']
               else merge A B (common_vars A B)) (\<lambda>merged_df.
        ebind (float_column merged_df ''prob_x'') (\<lambda>px.
        ebind (float_column merged_df ''prob_y'') (\<lambda>py.
          Inr (let m = drop_columns (assign_column merged_df ''prob''
                         (map (\<lambda>(x, y). Flt (fl_mul x y)) (zip px py))) [''prob_x'', ''prob_y'']
               in if ''dummy'' \<in> set (columns m) then drop_columns m [''dummy''] else m))))"
    by (simp add: multiplication_def resolve_def ebind_def Let_def)
  also have "\<dots> = ebind (if common_vars A B = [] then product_core [''dummy''] (with_dummy A) (with_dummy B)
          else product_core (common_vars A B) A B)
     (\<lambda>m. Inr (if ''dummy'' \<in> set (columns m) then drop_columns m [''dummy''] else m))"
    by (simp add: product_core_def ebind_def Let_def split: sum.splits)
  finally show ?thesis .
qed

lemma valid_factor_facts:
  assumes "valid_factor A"
  shows "distinct (columns A)" and "\<forall>l \<in> set (rows A). length l = length (columns A)"
    and "''prob'' \<in> set (columns A)"
    and "\<forall>l \<in> set (rows A). \<exists>p. get_cell (columns A) l ''prob'' = Some (Flt p)"
proof -
  from assms show d: "distinct (columns A)" and p: "''prob'' \<in> set (columns A)"
    by (simp_all add: valid_factor_def)
  from assms have r: "\<forall>l \<in> set (rows A). valid_row (columns A) l"
    by (simp add: valid_factor_def list_all_iff)
  then show "\<forall>l \<in> set (rows A). length l = length (columns A)"
    by (simp add: valid_row_def)
  show "\<forall>l \<in> set (rows A). \<exists>p. get_cell (columns A) l ''prob'' = Some (Flt p)"
    using r d p by (blast dest: valid_row_prob)
qed

lemma common_vars_distinct:
  "distinct (columns A) \<Longrightarrow>
   common_vars A B = filter (\<lambda>c. c \<in> set (columns B) \<and> c \<noteq> ''prob'') (columns A)"
  by (simp add: common_vars_def distinct_remdups_id)

lemma added_scope_keys:
  assumes "set keys = set (columns A) \<inter> set (columns B) - {''prob''}"
  shows "added_scope A B = filter (\<lambda>c. c \<notin> set keys \<and> c \<noteq> ''prob'') (columns B)"
proof -
  have "added_scope A B = filter (\<lambda>c. c \<noteq> ''prob'' \<and> c \<notin> set (scope A)) (columns B)"
    by (simp add: added_scope_def scope_def)
  also have "\<dots> = filter (\<lambda>c. c \<notin> set keys \<and> c \<noteq> ''prob'') (columns B)"
    by (rule filter_cong [OF refl]) (use assms in \<open>auto simp: scope_def\<close>)
  finally show ?thesis .
qed

lemma joined_row_zip:
  assumes "distinct (columns A)" and "distinct (columns B)"
    and "length a = length (columns A)" and "length b = length (columns B)"
    and "set keys = set (columns A) \<inter> set (columns B) - {''prob''}"
  shows "joined_row A B a b =
     map snd (filter (\<lambda>(c, x). c \<noteq> ''prob'') (zip (columns A) a)) @
     map snd (filter (\<lambda>(c, x). c \<notin> set keys \<and> c \<noteq> ''prob'') (zip (columns B) b)) @
     [Flt (fl_mul (prob_of (columns A) a) (prob_of (columns B) b))]"
  unfolding joined_row_def added_scope_keys [OF assms(5)] scope_def
  by (simp add: cell_at_zip [OF assms(1,3)] cell_at_zip [OF assms(2,4)])

lemma agree_keys:
  assumes "set keys = set (columns A) \<inter> set (columns B) - {''prob''}"
  shows "agree A B a b \<longleftrightarrow> key_of keys (columns B) b = key_of keys (columns A) a"
proof -
  have "set (common_scope A B) = set keys"
    using assms by (auto simp: common_scope_def scope_def)
  then show ?thesis
    by (auto simp: agree_def list_all_iff key_of_def)
qed


lemma spec_rows_pairs:
  assumes "distinct (columns A)" and "distinct (columns B)"
    and "\<forall>a \<in> set (rows A). length a = length (columns A)"
    and "\<forall>b \<in> set (rows B). length b = length (columns B)"
    and ks: "set keys = set (columns A) \<inter> set (columns B) - {''prob''}"
  shows "rows (multiplication_spec A B) =
     map (\<lambda>(l, r).
            map snd (filter (\<lambda>(c, x). c \<noteq> ''prob'') (zip (columns A) l)) @
            map snd (filter (\<lambda>(c, x). c \<notin> set keys \<and> c \<noteq> ''prob'') (zip (columns B) r)) @
            [Flt (fl_mul (prob_of (columns A) l) (prob_of (columns B) r))])
       (matched_pairs keys A B)"
proof -
  let ?G = "\<lambda>(l, r).
            map snd (filter (\<lambda>(c, x). c \<noteq> ''prob'') (zip (columns A) l)) @
            map snd (filter (\<lambda>(c, x). c \<notin> set keys \<and> c \<noteq> ''prob'') (zip (columns B) r)) @
            [Flt (fl_mul (prob_of (columns A) l) (prob_of (columns B) r))]"
  have "map (joined_row A B a) (filter (agree A B a) (rows B)) =
        map ?G (map (\<lambda>r. (a, r))
          (filter (\<lambda>r. key_of keys (columns B) r = key_of keys (columns A) a) (rows B)))"
    if a: "a \<in> set (rows A)" for a
  proof -
    have f: "filter (agree A B a) (rows B) =
             filter (\<lambda>r. key_of keys (columns B) r = key_of keys (columns A) a) (rows B)"
      by (rule filter_cong [OF refl]) (simp add: agree_keys [OF ks])
    have "map (joined_row A B a) (filter (agree A B a) (rows B)) =
          map (\<lambda>r. ?G (a, r)) (filter (agree A B a) (rows B))"
    proof (rule map_cong [OF refl])
      fix b assume "b \<in> set (filter (agree A B a) (rows B))"
      then have "b \<in> set (rows B)" by simp
      with assms(3,4) a have "length a = length (columns A)" "length b = length (columns B)"
        by auto
      from joined_row_zip [OF assms(1,2) this ks] show "joined_row A B a b = ?G (a, b)" by simp
    qed
    then show ?thesis unfolding f by (simp add: comp_def)
  qed
  then show ?thesis
    by (simp add: multiplication_spec_def matched_pairs_def map_concat comp_def cong: map_cong)
qed

lemma multiplication_common:
  assumes vA: "valid_factor A" and vB: "valid_factor B"
    and nA: "no_reserved A" and nB: "no_reserved B"
    and ne: "common_vars A B \<noteq> []"
  shows "multiplication net (Frame A) (Frame B) = Inr (multiplication_spec A B)"
proof -
  let ?keys = "common_vars A B"
  note fA = valid_factor_facts [OF vA] and fB = valid_factor_facts [OF vB]
  have ks: "set ?keys = set (columns A) \<inter> set (columns B) - {''prob''}"
    by (rule common_vars_set)
  have core: "product_core ?keys A B =
     Inr \<lparr>columns = filter (\<lambda>c. c \<noteq> ''prob'') (columns A) @
                    filter (\<lambda>c. c \<notin> set ?keys \<and> c \<noteq> ''prob'') (columns B) @ [''prob''],
          rows = map (\<lambda>(l, r).
                   map snd (filter (\<lambda>(c, x). c \<noteq> ''prob'') (zip (columns A) l)) @
                   map snd (filter (\<lambda>(c, x). c \<notin> set ?keys \<and> c \<noteq> ''prob'') (zip (columns B) r)) @
                   [Flt (fl_mul (prob_of (columns A) l) (prob_of (columns B) r))])
                 (matched_pairs ?keys A B)\<rparr>"
    by (rule product_core_eq)
       (use fA fB nA nB ks in \<open>auto simp: no_reserved_def\<close>)
  have spec: "multiplication_spec A B =
     \<lparr>columns = filter (\<lambda>c. c \<noteq> ''prob'') (columns A) @
                    filter (\<lambda>c. c \<notin> set ?keys \<and> c \<noteq> ''prob'') (columns B) @ [''prob''],
          rows = map (\<lambda>(l, r).
                   map snd (filter (\<lambda>(c, x). c \<noteq> ''prob'') (zip (columns A) l)) @
                   map snd (filter (\<lambda>(c, x). c \<notin> set ?keys \<and> c \<noteq> ''prob'') (zip (columns B) r)) @
                   [Flt (fl_mul (prob_of (columns A) l) (prob_of (columns B) r))])
                 (matched_pairs ?keys A B)\<rparr>"
  proof -
    have "columns (multiplication_spec A B) =
          filter (\<lambda>c. c \<noteq> ''prob'') (columns A) @
          filter (\<lambda>c. c \<notin> set ?keys \<and> c \<noteq> ''prob'') (columns B) @ [''prob'']"
      by (simp add: multiplication_spec_def scope_def added_scope_keys [OF ks])
    moreover note spec_rows_pairs [OF fA(1) fB(1) fA(2) fB(2) ks]
    ultimately show ?thesis by (intro dataframe.equality) simp_all
  qed
  have nd: "''dummy'' \<notin> set (columns (multiplication_spec A B))"
    using nA nB by (auto simp: multiplication_spec_def scope_def added_scope_def no_reserved_def)
  show ?thesis
    unfolding multiplication_core using ne nd core [folded spec] by (simp add: ebind_def)
qed


lemma with_dummy_eq:
  assumes "''dummy'' \<notin> set (columns A)"
  shows "with_dummy A = \<lparr>columns = columns A @ [''dummy''],
                         rows = map (\<lambda>l. l @ [Flt (Fin 1)]) (rows A)\<rparr>"
proof -
  have "zip (rows A) (replicate (length (rows A)) (Flt (Fin 1))) =
        map (\<lambda>l. (l, Flt (Fin 1))) (rows A)"
    by (simp add: zip_replicate2)
  then show ?thesis
    using assms by (simp add: with_dummy_def assign_column_def assign_cell_def comp_def)
qed

lemma get_cell_append_other:
  "c \<noteq> d \<Longrightarrow> length r = length cs \<Longrightarrow> get_cell (cs @ [d]) (r @ [v]) c = get_cell cs r c"
  by (simp add: get_cell_def map_add_def split: option.splits del: map_of_zip_is_None)

lemma prob_of_append:
  "d \<noteq> ''prob'' \<Longrightarrow> length r = length cs \<Longrightarrow> prob_of (cs @ [d]) (r @ [v]) = prob_of cs r"
  by (simp add: prob_of_def get_cell_append_other)

lemma matched_pairs_all:
  "matched_pairs [] A B = concat (map (\<lambda>l. map (\<lambda>r. (l, r)) (rows B)) (rows A))"
  by (simp add: matched_pairs_def key_of_def)

lemma matched_pairs_dummy:
  assumes "''dummy'' \<notin> set (columns A)" and "''dummy'' \<notin> set (columns B)"
    and "\<forall>l \<in> set (rows A). length l = length (columns A)"
    and "\<forall>r \<in> set (rows B). length r = length (columns B)"
  shows "matched_pairs [''dummy''] (with_dummy A) (with_dummy B) =
         map (\<lambda>(l, r). (l @ [Flt (Fin 1)], r @ [Flt (Fin 1)])) (matched_pairs [] A B)"
proof -
  let ?v = "Flt (Fin 1)"
  have kA: "key_of [''dummy''] (columns A @ [''dummy'']) (l @ [?v]) = [Some ?v]"
    if "l \<in> set (rows A)" for l
    using that assms(1,3) by (simp add: key_of_def get_cell_append_last)
  have kB: "key_of [''dummy''] (columns B @ [''dummy'']) (r @ [?v]) = [Some ?v]"
    if "r \<in> set (rows B)" for r
    using that assms(2,4) by (simp add: key_of_def get_cell_append_last)
  have "filter (\<lambda>r. key_of [''dummy''] (columns B @ [''dummy'']) r =
                     key_of [''dummy''] (columns A @ [''dummy'']) (l @ [?v]))
          (map (\<lambda>r. r @ [?v]) (rows B)) = map (\<lambda>r. r @ [?v]) (rows B)"
    if "l \<in> set (rows A)" for l
    using kA [OF that] kB by (auto simp: filter_id_conv)
  then show ?thesis
    unfolding matched_pairs_all
    by (simp add: matched_pairs_def with_dummy_eq [OF assms(1)] with_dummy_eq [OF assms(2)]
        map_concat comp_def cong: map_cong)
qed

lemma drop_cells_append:
  "length r1 = length c1 \<Longrightarrow>
   drop_cells ns (c1 @ c2) (r1 @ r2) = drop_cells ns c1 r1 @ drop_cells ns c2 r2"
  by (simp add: drop_cells_def)

lemma drop_cells_id:
  "set ns \<inter> set cs = {} \<Longrightarrow> length r = length cs \<Longrightarrow> drop_cells ns cs r = r"
proof -
  assume a: "set ns \<inter> set cs = {}" and len: "length r = length cs"
  have "filter (\<lambda>(c, x). c \<notin> set ns) (zip cs r) = zip cs r"
    using a by (auto simp: filter_id_conv dest: set_zip_leftD)
  then show ?thesis using len by (simp add: drop_cells_def)
qed


lemma length_filter_zip:
  "length r = length cs \<Longrightarrow>
   length (map snd (filter (\<lambda>(c, x). P c) (zip cs r))) = length (filter P cs)"
  using map_fst_filter_zip [of r cs P] by (metis length_map)

lemma multiplication_disjoint:
  assumes vA: "valid_factor A" and vB: "valid_factor B"
    and nA: "no_reserved A" and nB: "no_reserved B"
    and e: "common_vars A B = []"
  shows "multiplication net (Frame A) (Frame B) = Inr (multiplication_spec A B)"
proof -
  define cA where "cA = columns A"
  define cB where "cB = columns B"
  define v where "v = Flt (Fin 1)"
  define XA where "XA = (\<lambda>l :: cell list. map snd (filter (\<lambda>(c, x). c \<noteq> ''prob'') (zip cA l)))"
  define YB where "YB = (\<lambda>r :: cell list. map snd (filter (\<lambda>(c, x). c \<noteq> ''prob'') (zip cB r)))"
  define P where "P = (\<lambda>l r. Flt (fl_mul (prob_of cA l) (prob_of cB r)))"
  define pairs where "pairs = matched_pairs [] A B"
  note fA = valid_factor_facts [OF vA, folded cA_def]
    and fB = valid_factor_facts [OF vB, folded cB_def]
  have dA: "''dummy'' \<notin> set cA" and xA: "''prob_x'' \<notin> set cA" and yA: "''prob_y'' \<notin> set cA"
    using nA by (simp_all add: no_reserved_def cA_def)
  have dB: "''dummy'' \<notin> set cB" and xB: "''prob_x'' \<notin> set cB" and yB: "''prob_y'' \<notin> set cB"
    using nB by (simp_all add: no_reserved_def cB_def)
  have disj: "set cA \<inter> set cB \<subseteq> {''prob''}"
    using common_vars_set [of A B] e by (auto simp: cA_def cB_def)
  have ks0: "set ([] :: string list) = set (columns A) \<inter> set (columns B) - {''prob''}"
    using disj by (auto simp: cA_def cB_def)
  have wA: "with_dummy A = \<lparr>columns = cA @ [''dummy''], rows = map (\<lambda>l. l @ [v]) (rows A)\<rparr>"
    using dA by (simp add: with_dummy_eq cA_def v_def)
  have wB: "with_dummy B = \<lparr>columns = cB @ [''dummy''], rows = map (\<lambda>l. l @ [v]) (rows B)\<rparr>"
    using dB by (simp add: with_dummy_eq cB_def v_def)
  have mp: "matched_pairs [''dummy''] (with_dummy A) (with_dummy B) =
            map (\<lambda>(l, r). (l @ [v], r @ [v])) pairs"
    unfolding pairs_def v_def
    by (rule matched_pairs_dummy) (use dA dB fA(2) fB(2) in \<open>simp_all add: cA_def cB_def\<close>)
  define G' where "G' = (\<lambda>(l, r).
       map snd (filter (\<lambda>(c, x). c \<noteq> ''prob'') (zip (cA @ [''dummy'']) l)) @
       map snd (filter (\<lambda>(c, x). c \<notin> set [''dummy''] \<and> c \<noteq> ''prob'') (zip (cB @ [''dummy'']) r)) @
       [Flt (fl_mul (prob_of (cA @ [''dummy'']) l) (prob_of (cB @ [''dummy'']) r))])"
  define C2 where "C2 = scope A @ [''dummy''] @ scope B @ [''prob'']"
  have core: "product_core [''dummy''] (with_dummy A) (with_dummy B) =
     Inr \<lparr>columns = C2, rows = map G' (map (\<lambda>(l, r). (l @ [v], r @ [v])) pairs)\<rparr>"
  proof -
    have "product_core [''dummy''] (with_dummy A) (with_dummy B) =
      Inr \<lparr>columns = filter (\<lambda>c. c \<noteq> ''prob'') (columns (with_dummy A)) @
                    filter (\<lambda>c. c \<notin> set [''dummy''] \<and> c \<noteq> ''prob'') (columns (with_dummy B)) @
                    [''prob''],
          rows = map (\<lambda>(l, r).
                   map snd (filter (\<lambda>(c, x). c \<noteq> ''prob'') (zip (columns (with_dummy A)) l)) @
                   map snd (filter (\<lambda>(c, x). c \<notin> set [''dummy''] \<and> c \<noteq> ''prob'')
                     (zip (columns (with_dummy B)) r)) @
                   [Flt (fl_mul (prob_of (columns (with_dummy A)) l)
                          (prob_of (columns (with_dummy B)) r))])
                 (matched_pairs [''dummy''] (with_dummy A) (with_dummy B))\<rparr>"
    proof (rule product_core_eq)
      show "\<forall>l\<in>set (rows (with_dummy A)).
              \<exists>p. get_cell (columns (with_dummy A)) l ''prob'' = Some (Flt p)"
        unfolding wA using fA(2,4) by (auto simp: get_cell_append_other)
      show "\<forall>r\<in>set (rows (with_dummy B)).
              \<exists>p. get_cell (columns (with_dummy B)) r ''prob'' = Some (Flt p)"
        unfolding wB using fB(2,4) by (auto simp: get_cell_append_other)
    qed (use fA fB dA dB xA xB yA yB disj in \<open>auto simp: wA wB\<close>)
    moreover have "filter (\<lambda>c. c \<noteq> ''prob'') (cA @ [''dummy'']) = scope A @ [''dummy'']"
      by (simp add: scope_def cA_def)
    moreover have "filter (\<lambda>c. c \<notin> set [''dummy''] \<and> c \<noteq> ''prob'') (cB @ [''dummy'']) = scope B"
      using dB by (auto simp: scope_def cB_def intro: filter_cong)
    ultimately show ?thesis
      unfolding mp by (simp add: wA wB C2_def G'_def)
  qed
  have G'eq: "G' (l @ [v], r @ [v]) = XA l @ [v] @ YB r @ [P l r]"
    if "l \<in> set (rows A)" "r \<in> set (rows B)" for l r
  proof -
    from that fA(2) fB(2) have len: "length l = length cA" "length r = length cB" by auto
    have "filter (\<lambda>(c, x). c \<notin> set [''dummy''] \<and> c \<noteq> ''prob'') (zip cB r) =
          filter (\<lambda>(c, x). c \<noteq> ''prob'') (zip cB r)"
      by (rule filter_cong [OF refl]) (use dB in \<open>auto dest: set_zip_leftD\<close>)
    then show ?thesis
      using len by (simp add: G'_def XA_def YB_def P_def prob_of_append)
  qed
  have drop: "drop_cells [''dummy''] C2 (XA l @ [v] @ YB r @ [P l r]) = XA l @ YB r @ [P l r]"
    if "l \<in> set (rows A)" "r \<in> set (rows B)" for l r
  proof -
    from that fA(2) fB(2) have len: "length l = length cA" "length r = length cB" by auto
    have lX: "length (XA l) = length (scope A)"
      unfolding XA_def scope_def cA_def [symmetric] by (rule length_filter_zip [OF len(1)])
    have lY: "length (YB r @ [P l r]) = length (scope B @ [''prob''])"
      unfolding YB_def scope_def cB_def [symmetric] using length_filter_zip [OF len(2)] by simp
    have a: "drop_cells [''dummy''] (scope A) (XA l) = XA l"
      by (rule drop_cells_id [OF _ lX]) (use dA in \<open>auto simp: scope_def cA_def\<close>)
    have b: "drop_cells [''dummy''] (scope B @ [''prob'']) (YB r @ [P l r]) = YB r @ [P l r]"
      by (rule drop_cells_id [OF _ lY]) (use dB in \<open>auto simp: scope_def cB_def\<close>)
    have c: "drop_cells [''dummy''] [''dummy''] [v] = []"
      by (simp add: drop_cells_def)
    have "drop_cells [''dummy''] C2 (XA l @ [v] @ YB r @ [P l r]) =
          drop_cells [''dummy''] (scope A) (XA l) @
          drop_cells [''dummy''] ([''dummy''] @ (scope B @ [''prob''])) ([v] @ (YB r @ [P l r]))"
      unfolding C2_def using lX by (simp add: drop_cells_append)
    also have "drop_cells [''dummy''] ([''dummy''] @ (scope B @ [''prob''])) ([v] @ (YB r @ [P l r])) =
               drop_cells [''dummy''] [''dummy''] [v] @
               drop_cells [''dummy''] (scope B @ [''prob'']) (YB r @ [P l r])"
      by (rule drop_cells_append) simp
    finally show ?thesis unfolding a b c by simp
  qed
  have spec: "multiplication_spec A B =
     \<lparr>columns = scope A @ scope B @ [''prob''],
      rows = map (\<lambda>(l, r). XA l @ YB r @ [P l r]) pairs\<rparr>"
  proof -
    have "added_scope A B = scope B"
      unfolding added_scope_keys [OF ks0] by (simp add: scope_def)
    then have "columns (multiplication_spec A B) = scope A @ scope B @ [''prob'']"
      by (simp add: multiplication_spec_def)
    moreover have "rows (multiplication_spec A B) = map (\<lambda>(l, r). XA l @ YB r @ [P l r]) pairs"
      unfolding spec_rows_pairs [OF fA(1) [unfolded cA_def] fB(1) [unfolded cB_def]
          fA(2) [unfolded cA_def] fB(2) [unfolded cB_def] ks0]
      by (simp add: XA_def YB_def P_def pairs_def cA_def cB_def)
    ultimately show ?thesis by (intro dataframe.equality) simp_all
  qed
  have pin: "l \<in> set (rows A) \<and> r \<in> set (rows B)" if "(l, r) \<in> set pairs" for l r
    using that unfolding pairs_def by (rule matched_pairs_set)
  have "map (drop_cells [''dummy''] C2) (map G' (map (\<lambda>(l, r). (l @ [v], r @ [v])) pairs)) =
        map (\<lambda>(l, r). XA l @ YB r @ [P l r]) pairs"
    unfolding map_map
  proof (rule map_cong [OF refl])
    fix lr assume lr: "lr \<in> set pairs"
    obtain l r where [simp]: "lr = (l, r)" by (cases lr)
    from pin lr have "l \<in> set (rows A)" "r \<in> set (rows B)" by auto
    from G'eq [OF this] drop [OF this]
    show "(drop_cells [''dummy''] C2 \<circ> (G' \<circ> (\<lambda>(l, r). (l @ [v], r @ [v])))) lr =
          (case lr of (l, r) \<Rightarrow> XA l @ YB r @ [P l r])"
      by simp
  qed
  moreover have "filter (\<lambda>c. c \<notin> set [''dummy'']) C2 = scope A @ scope B @ [''prob'']"
  proof -
    have "filter (\<lambda>c. c \<notin> set [''dummy'']) (scope A) = scope A"
      unfolding filter_id_conv using dA by (auto simp: scope_def cA_def)
    moreover have "filter (\<lambda>c. c \<notin> set [''dummy'']) (scope B) = scope B"
      unfolding filter_id_conv using dB by (auto simp: scope_def cB_def)
    ultimately show ?thesis by (simp add: C2_def)
  qed
  moreover have "''dummy'' \<in> set C2" by (simp add: C2_def)
  ultimately show ?thesis
    unfolding multiplication_core using e core spec
    by (simp add: ebind_def drop_columns_def)
qed


text \<open>
  Where the code agrees with the specified product. For well-formed factors none of whose
  columns carries one of the three labels that \<open>multiplication\<close> uses for itself
  (\<^verbatim>\<open>dummy\<close>, \<^verbatim>\<open>prob_x\<close>, \<^verbatim>\<open>prob_y\<close>), the result is the product as the
  specification words it: one row for every pair of rows that agree on the common scope
  columns (every pair when there is none), with the product of the two prob values. Its
  scope is the union of the two scopes, its columns are distinct, and none of the three
  labels is left in it. The products are those of \<open>fl_mul\<close>, without rounding.
\<close>

theorem multiplication_is_join:
  assumes "valid_factor A" and "valid_factor B" and "no_reserved A" and "no_reserved B"
  shows "multiplication net (Frame A) (Frame B) = Inr (multiplication_spec A B)
         \<and> set (scope (multiplication_spec A B)) = set (scope A) \<union> set (scope B)
         \<and> distinct (columns (multiplication_spec A B))
         \<and> no_reserved (multiplication_spec A B)"
proof -
  have m: "multiplication net (Frame A) (Frame B) = Inr (multiplication_spec A B)"
    using multiplication_common [OF assms] multiplication_disjoint [OF assms]
    by (cases "common_vars A B = []") simp_all
  have c: "columns (multiplication_spec A B) = scope A @ added_scope A B @ [''prob'']"
    by (simp add: multiplication_spec_def)
  have s: "set (scope (multiplication_spec A B)) = set (scope A) \<union> set (scope B)"
    unfolding scope_def [of "multiplication_spec A B"] c
    by (auto simp: scope_def added_scope_def)
  have "distinct (columns A)" "distinct (columns B)"
    using assms(1,2) by (simp_all add: valid_factor_def)
  then have d: "distinct (columns (multiplication_spec A B))"
    unfolding c by (auto simp: scope_def added_scope_def)
  have n: "no_reserved (multiplication_spec A B)"
    using assms(3,4) unfolding no_reserved_def c by (auto simp: scope_def added_scope_def)
  from m s d n show ?thesis by blast
qed


theorem multiplication_is_join_witness:
  "valid_factor cpt_A \<and> valid_factor cpt_B \<and> valid_factor cpt_C
   \<and> no_reserved cpt_A \<and> no_reserved cpt_B \<and> no_reserved cpt_C
   \<and> multiplication chain_net (Frame cpt_A) (Frame cpt_B) =
       Inr \<lparr>columns = [''A'', ''B'', ''prob''],
            rows = [[Str ''T'', Str ''T'', Flt (Fin (27/100))],
                    [Str ''T'', Str ''F'', Flt (Fin (3/100))],
                    [Str ''F'', Str ''T'', Flt (Fin (7/50))],
                    [Str ''F'', Str ''F'', Flt (Fin (14/25))]]\<rparr>
   \<and> multiplication chain_net (Frame cpt_A) (Frame cpt_C) =
       Inr \<lparr>columns = [''A'', ''C'', ''prob''],
            rows = [[Str ''T'', Str ''T'', Flt (Fin (3/40))],
                    [Str ''T'', Str ''F'', Flt (Fin (9/40))],
                    [Str ''F'', Str ''T'', Flt (Fin (7/40))],
                    [Str ''F'', Str ''F'', Flt (Fin (21/40))]]\<rparr>"
proof -
  have v: "valid_factor cpt_A" "valid_factor cpt_B" "valid_factor cpt_C"
    by code_simp+
  have n: "no_reserved cpt_A" "no_reserved cpt_B" "no_reserved cpt_C"
    by code_simp+
  have s1: "multiplication_spec cpt_A cpt_B =
       \<lparr>columns = [''A'', ''B'', ''prob''],
            rows = [[Str ''T'', Str ''T'', Flt (Fin (27/100))],
                    [Str ''T'', Str ''F'', Flt (Fin (3/100))],
                    [Str ''F'', Str ''T'', Flt (Fin (7/50))],
                    [Str ''F'', Str ''F'', Flt (Fin (14/25))]]\<rparr>"
    by code_simp
  have s2: "multiplication_spec cpt_A cpt_C =
       \<lparr>columns = [''A'', ''C'', ''prob''],
            rows = [[Str ''T'', Str ''T'', Flt (Fin (3/40))],
                    [Str ''T'', Str ''F'', Flt (Fin (9/40))],
                    [Str ''F'', Str ''T'', Flt (Fin (7/40))],
                    [Str ''F'', Str ''F'', Flt (Fin (21/40))]]\<rparr>"
    by code_simp
  from multiplication_is_join [OF v(1) v(2) n(1) n(2), of chain_net]
    multiplication_is_join [OF v(1) v(3) n(1) n(3), of chain_net] v n
  show ?thesis
    unfolding s1 s2 by simp
qed

text \<open>
  C6 (a defect of the code). The claim, and the docstring of \<open>multiplication\<close>
  (\<^verbatim>\<open>Multiply two factors\<close>): for every pair of factors the scope of the product is the
  union of the scopes. A well-formed factor over \<open>A\<close> and a variable named \<open>dummy\<close>,
  multiplied with the table of \<open>B\<close> given \<open>A\<close>, shares \<open>A\<close> with it, so the code adds no
  join key of its own; the result still loses the variable \<open>dummy\<close>, because the final
  test \<^verbatim>\<open>if 'dummy' in merged_df.columns\<close> does not tell the code's join key from a
  column of a factor. The product is a table over \<open>A\<close> and \<open>B\<close> instead of \<open>A\<close>,
  \<open>dummy\<close> and \<open>B\<close>.
\<close>

theorem multiplication_drops_dummy_variable:
  "valid_factor cpt_dummy \<and> valid_factor cpt_B
   \<and> ''dummy'' \<in> set (scope cpt_dummy)
   \<and> multiplication chain_net (Frame cpt_dummy) (Frame cpt_B) =
       Inr \<lparr>columns = [''A'', ''B'', ''prob''],
            rows = [[Str ''T'', Str ''T'', Flt (Fin (9/20))],
                    [Str ''T'', Str ''F'', Flt (Fin (1/20))],
                    [Str ''F'', Str ''T'', Flt (Fin (1/10))],
                    [Str ''F'', Str ''F'', Flt (Fin (2/5))]]\<rparr>"
  by code_simp

end
